theory Spec2Isabelle
  imports Main
begin

section \<open>JavaScript values and the Engine's structured clone\<close>

text \<open>
  \<^verbatim>\<open>src/index.ts\<close> stores values of TypeScript type \<^verbatim>\<open>unknown\<close>. A caller-side value is a
  primitive, a function, or a reference into the caller's heap of mutable objects and
  arrays. The heap is a list of cells, an address is an index into it, allocation appends.
  Numbers are modelled as integers (the adapter never computes with a stored value).
\<close>

type_synonym addr = nat

datatype jsval = JUndefined | JNull | JBool bool | JNum int | JStr string
  | JFunction string | JRef addr

datatype jsobj = JObject "(string \<times> jsval) list" | JArray "jsval list"

text \<open>The values held by an object or an array, the address a value refers to, functions.\<close>

fun obj_vals :: "jsobj \<Rightarrow> jsval list" where
  "obj_vals (JObject kvs) = map snd kvs"
| "obj_vals (JArray vs) = vs"

fun val_refs :: "jsval \<Rightarrow> addr list" where
  "val_refs (JRef a) = [a]"
| "val_refs v = []"

fun is_function :: "jsval \<Rightarrow> bool" where
  "is_function (JFunction f) = True"
| "is_function v = False"

text \<open>
  The addresses that can be reached from a value: the addresses found in the cells
  reached so far are added, once for every cell of the heap. A shortest path to a cell
  passes through each cell at most once, so this many rounds reach every cell that can
  be reached, also through cycles.
\<close>

definition successors :: "jsobj list \<Rightarrow> addr \<Rightarrow> addr list" where
  "successors h a = (if a < length h then concat (map val_refs (obj_vals (h ! a))) else [])"

definition reach_step :: "jsobj list \<Rightarrow> addr list \<Rightarrow> addr list" where
  "reach_step h as = remdups (as @ concat (map (successors h) as))"

definition reachable :: "jsobj list \<Rightarrow> jsval \<Rightarrow> addr list" where
  "reachable h v = (reach_step h ^^ length h) (val_refs v)"

text \<open>
  A value is structured-cloneable when it is not a function and no function can be
  reached from it; cycles and shared cells are cloneable. (An address outside the heap is
  not a value of JavaScript; it is treated as not cloneable.)
\<close>

definition cloneable :: "jsobj list \<Rightarrow> jsval \<Rightarrow> bool" where
  "cloneable h v =
     (\<not> is_function v
      \<and> list_all (\<lambda>a. a < length h \<and> list_all (\<lambda>x. \<not> is_function x) (obj_vals (h ! a)))
           (reachable h v))"

text \<open>
  What IndexedDB keeps for a value is its structured clone, which shares nothing with the
  caller's heap: the value together with a frozen copy of the heap it refers into, so
  that cycles and sharing are kept as they are. The cells of the copy that cannot be
  reached from the value are never read. A primitive needs no heap.
\<close>

datatype stored = Snapshot jsval "jsobj list"

text \<open>
  StructuredSerialize, as \<^verbatim>\<open>objectStore.add\<close> and \<^verbatim>\<open>objectStore.put\<close> apply it to their
  argument; \<open>None\<close> is the DataCloneError.
\<close>

definition structuredSerialize :: "jsobj list \<Rightarrow> jsval \<Rightarrow> stored option" where
  "structuredSerialize h v =
     (if cloneable h v then Some (Snapshot v (if val_refs v = [] then [] else h)) else None)"

text \<open>
  StructuredDeserialize, as a read request applies it to what it found: the cells of the
  snapshot are allocated anew at the end of the heap, their references moved along.
\<close>

fun shift_val :: "nat \<Rightarrow> jsval \<Rightarrow> jsval" where
  "shift_val n (JRef a) = JRef (n + a)"
| "shift_val n v = v"

fun shift_obj :: "nat \<Rightarrow> jsobj \<Rightarrow> jsobj" where
  "shift_obj n (JObject kvs) = JObject (map (\<lambda>kv. (fst kv, shift_val n (snd kv))) kvs)"
| "shift_obj n (JArray vs) = JArray (map (shift_val n) vs)"

fun deserialize :: "jsobj list \<Rightarrow> stored \<Rightarrow> jsval \<times> jsobj list" where
  "deserialize h (Snapshot v snap) = (shift_val (length h) v, h @ map (shift_obj (length h)) snap)"

subsection \<open>Deep equality\<close>

text \<open>
  Two values, each in its own heap, are deeply equal (as \<^verbatim>\<open>toEqual\<close> of the tests compares
  them) when they are the same primitive, or refer to cells that correspond: \<open>R\<close> lists
  the pairs of corresponding addresses, and corresponding cells are both objects with
  the same keys, or both arrays of the same length, holding values that are equal in
  the same sense. This is defined without reference to the clone.
\<close>

fun same_val :: "(addr \<times> addr) list \<Rightarrow> jsval \<Rightarrow> jsval \<Rightarrow> bool" where
  "same_val R (JRef a) (JRef b) = ((a, b) \<in> set R)"
| "same_val R (JRef a) v = False"
| "same_val R v (JRef b) = False"
| "same_val R v v' = (v = v')"

fun same_obj :: "(addr \<times> addr) list \<Rightarrow> jsobj \<Rightarrow> jsobj \<Rightarrow> bool" where
  "same_obj R (JObject kvs) (JObject kvs') =
     list_all2 (\<lambda>kv kv'. fst kv = fst kv' \<and> same_val R (snd kv) (snd kv')) kvs kvs'"
| "same_obj R (JArray vs) (JArray vs') = list_all2 (same_val R) vs vs'"
| "same_obj R x y = False"

definition deep_equal_by ::
  "(addr \<times> addr) list \<Rightarrow> jsobj list \<Rightarrow> jsval \<Rightarrow> jsobj list \<Rightarrow> jsval \<Rightarrow> bool" where
  "deep_equal_by R h v h' v' =
     (same_val R v v'
      \<and> list_all (\<lambda>p. fst p < length h \<and> snd p < length h'
                      \<and> same_obj R (h ! fst p) (h' ! snd p)) R)"

text \<open>Every reference held in a heap of JavaScript points to a cell of that heap.\<close>

definition closed_heap :: "jsobj list \<Rightarrow> bool" where
  "closed_heap h =
     list_all (\<lambda>x. list_all (\<lambda>v. list_all (\<lambda>a. a < length h) (val_refs v)) (obj_vals x)) h"

text \<open>The correspondence between the \<open>m\<close> cells of a snapshot and their copies from address \<open>n\<close> on.\<close>

definition shift_pairs :: "nat \<Rightarrow> nat \<Rightarrow> (addr \<times> addr) list" where
  "shift_pairs n m = map (\<lambda>a. (a, n + a)) [0..<m]"

section \<open>The Engine: IndexedDB object stores\<close>

text \<open>The \<^verbatim>\<open>Entry\<close> interface of \<^verbatim>\<open>src/index.ts\<close>; \<open>index\<close> is the ordinal.\<close>

record 'v Entry =
  index :: int
  key :: string
  "value" :: 'v

text \<open>
  \<^verbatim>\<open>Error(message)\<close> is what \<^verbatim>\<open>checkStorage\<close> throws; a \<^verbatim>\<open>DOMException\<close> is the
  \<^verbatim>\<open>error\<close> of a failed IndexedDB request.
\<close>

datatype error = Error string | DOMException string

text \<open>A promise is fulfilled, rejected, or never settled.\<close>

datatype 'a promise = Fulfilled 'a | Rejected error | Pending

text \<open>\<^verbatim>\<open>new Ok()\<close> of storage-facade.\<close>

datatype ok = Ok

text \<open>Every request the adapter sends to IndexedDB, with its arguments.\<close>

datatype engine_call =
    CallOpen string
  | CallDeleteDatabase string
  | CallKeysGetKey string
  | CallIndexesGetKey int
  | CallGet nat
  | CallOpenCursorPrev
  | CallOpenCursor nat
  | CallContinue
  | CallAdd "stored Entry"
  | CallPut "stored Entry" nat
  | CallDelete nat
  | CallClear
  | CallCount

text \<open>
  An object store created with \<^verbatim>\<open>autoIncrement: true\<close> and no key path: records under
  generated primary keys, listed in ascending primary-key order (the order of a cursor
  over the store), and the current number of the key generator. The two unique indexes
  \<^verbatim>\<open>'indexes'\<close> (on \<^verbatim>\<open>index\<close>) and \<^verbatim>\<open>'keys'\<close> (on \<^verbatim>\<open>key\<close>) are derived from the records.
\<close>

record object_store =
  records :: "(nat \<times> stored Entry) list"
  keygen :: nat

type_synonym database = "string \<Rightarrow> object_store option"

text \<open>
  The world outside the adapter: the databases of \<^verbatim>\<open>window.indexedDB\<close> by name (each at
  version 1, a map from store name to object store), the caller's heap, the requests on
  which the Engine reports a failure (with the message of the error), and the requests
  sent so far.
\<close>

record world =
  databases :: "string \<Rightarrow> database option"
  heap :: "jsobj list"
  faults :: "engine_call \<Rightarrow> string option"
  calls :: "engine_call list"

text \<open>
  Sending a request: it is recorded, and its \<^verbatim>\<open>onerror\<close> handler runs with the Engine's
  error or its \<^verbatim>\<open>onsuccess\<close> handler with the answer.
\<close>

definition request :: "engine_call \<Rightarrow> error + 'a \<Rightarrow> world \<Rightarrow> (error + 'a) \<times> world" where
  "request c answer w =
     ((case faults w c of Some m \<Rightarrow> Inl (DOMException m) | None \<Rightarrow> answer),
      w\<lparr>calls := calls w @ [c]\<rparr>)"

subsection \<open>Requests on one object store\<close>

text \<open>\<^verbatim>\<open>index('keys').getKey(k)\<close>: the primary key of the first record of the index with key \<open>k\<close>.\<close>

definition keys_getKey :: "(nat \<times> stored Entry) list \<Rightarrow> string \<Rightarrow> nat option" where
  "keys_getKey recs k = map_option fst (find (\<lambda>r. key (snd r) = k) recs)"

text \<open>\<^verbatim>\<open>index('indexes').getKey(i)\<close>.\<close>

definition indexes_getKey :: "(nat \<times> stored Entry) list \<Rightarrow> int \<Rightarrow> nat option" where
  "indexes_getKey recs i = map_option fst (find (\<lambda>r. index (snd r) = i) recs)"

text \<open>\<^verbatim>\<open>objectStore.get(pk)\<close>.\<close>

definition store_get :: "(nat \<times> stored Entry) list \<Rightarrow> nat \<Rightarrow> stored Entry option" where
  "store_get recs pk = map_of recs pk"

text \<open>
  \<^verbatim>\<open>index('indexes').openCursor(null, 'prev')\<close>: the cursor starts at the last record of
  the index, which is ordered by \<open>index\<close> and then by primary key; \<open>None\<close> is the null
  cursor of an empty index.
\<close>

fun indexes_last :: "(nat \<times> stored Entry) list \<Rightarrow> stored Entry option" where
  "indexes_last [] = None"
| "indexes_last (r # rs) =
     (case indexes_last rs of
        None \<Rightarrow> Some (snd r)
      | Some m \<Rightarrow> if index (snd r) \<le> index m then Some m else Some (snd r))"

text \<open>
  \<^verbatim>\<open>objectStore.openCursor(IDBKeyRange.lowerBound(lo, false))\<close> and \<^verbatim>\<open>cursor.continue()\<close>:
  the first record whose primary key is at least \<open>lo\<close>. Primary keys are generated
  integers, so continuing after key \<open>c\<close> is the first record from \<open>Suc c\<close> on.
\<close>

definition cursor_at :: "(nat \<times> stored Entry) list \<Rightarrow> nat \<Rightarrow> (nat \<times> stored Entry) option" where
  "cursor_at recs lo = find (\<lambda>r. lo \<le> fst r) recs"

text \<open>A unique index refuses a record whose indexed field another record already has.\<close>

definition violates :: "(nat \<times> stored Entry) list \<Rightarrow> nat \<Rightarrow> stored Entry \<Rightarrow> bool" where
  "violates recs pk e =
     list_ex (\<lambda>r. fst r \<noteq> pk \<and> (index (snd r) = index e \<or> key (snd r) = key e)) recs"

definition put_record :: "nat \<Rightarrow> stored Entry \<Rightarrow> (nat \<times> stored Entry) list \<Rightarrow> (nat \<times> stored Entry) list" where
  "put_record pk e recs =
     (if pk \<in> fst ` set recs then map (\<lambda>r. if fst r = pk then (pk, e) else r) recs
      else insort_key fst (pk, e) recs)"

text \<open>\<^verbatim>\<open>objectStore.put(e, pk)\<close>.\<close>

definition store_put :: "object_store \<Rightarrow> stored Entry \<Rightarrow> nat \<Rightarrow> error + object_store" where
  "store_put os e pk =
     (if violates (records os) pk e then Inl (DOMException ''ConstraintError'')
      else Inr (os\<lparr>records := put_record pk e (records os), keygen := max (keygen os) (Suc pk)\<rparr>))"

text \<open>\<^verbatim>\<open>objectStore.add(e)\<close>: the key generator supplies the primary key.\<close>

definition store_add :: "object_store \<Rightarrow> stored Entry \<Rightarrow> error + object_store" where
  "store_add os e =
     (let pk = keygen os in
      if pk \<in> fst ` set (records os) \<or> violates (records os) pk e
      then Inl (DOMException ''ConstraintError'')
      else Inr (os\<lparr>records := put_record pk e (records os), keygen := Suc pk\<rparr>))"

text \<open>\<^verbatim>\<open>objectStore.delete(pk)\<close>.\<close>

definition store_delete :: "object_store \<Rightarrow> nat \<Rightarrow> object_store" where
  "store_delete os pk = os\<lparr>records := filter (\<lambda>r. fst r \<noteq> pk) (records os)\<rparr>"

text \<open>\<^verbatim>\<open>objectStore.clear()\<close>: the key generator keeps its current number.\<close>

definition store_clear :: "object_store \<Rightarrow> object_store" where
  "store_clear os = os\<lparr>records := []\<rparr>"

text \<open>\<^verbatim>\<open>objectStore.count()\<close>.\<close>

definition store_count :: "object_store \<Rightarrow> nat" where
  "store_count os = length (records os)"

section \<open>The adapter: class \<^verbatim>\<open>IndexedDBInterface\<close>\<close>

text \<open>The fields of the class (\<^verbatim>\<open>interfaceName\<close> is a constant and plays no part).\<close>

record IndexedDBInterface =
  storageName :: string
  dbName :: string
  isDeleted :: bool

definition checkStorage :: "IndexedDBInterface \<Rightarrow> error + unit" where
  "checkStorage this =
     (if isDeleted this then Inl (Error ''This Storage was deleted!'') else Inr ())"

text \<open>
  \<^verbatim>\<open>window.indexedDB.open(name, 1)\<close> without an \<^verbatim>\<open>onupgradeneeded\<close> handler, as every
  method but \<^verbatim>\<open>initAsync\<close> calls it: a database that does not exist is created without
  object stores.
\<close>

definition idb_open :: "string \<Rightarrow> world \<Rightarrow> (error + database) \<times> world" where
  "idb_open name w =
     (case request (CallOpen name) (Inr ()) w of
        (Inl e, w1) \<Rightarrow> (Inl e, w1)
      | (Inr _, w1) \<Rightarrow>
          (case databases w1 name of
             None \<Rightarrow> (Inr Map.empty, w1\<lparr>databases := (databases w1)(name \<mapsto> Map.empty)\<rparr>)
           | Some db \<Rightarrow> (Inr db, w1)))"

text \<open>
  The opening lines shared by the data methods: open the database (\<^verbatim>\<open>onerror\<close> rejects),
  then \<^verbatim>\<open>db.transaction(this.storageName, mode).objectStore(this.storageName)\<close>. Where the
  database has no such object store, \<^verbatim>\<open>db.transaction\<close> throws inside the
  \<^verbatim>\<open>onsuccess\<close> handler and the promise of the method is never settled.
\<close>

definition openObjectStore :: "IndexedDBInterface \<Rightarrow> world \<Rightarrow> ('a promise + object_store) \<times> world" where
  "openObjectStore this w =
     (case idb_open (dbName this) w of
        (Inl e, w1) \<Rightarrow> (Inl (Rejected e), w1)
      | (Inr db, w1) \<Rightarrow>
          (case db (storageName this) of
             None \<Rightarrow> (Inl Pending, w1)
           | Some objectStore \<Rightarrow> (Inr objectStore, w1)))"

text \<open>
  A read-write transaction that completes writes its object store back. A transaction
  with a failed request is aborted (no handler of the source prevents the default), so
  nothing is written back on those paths.
\<close>

definition commit :: "IndexedDBInterface \<Rightarrow> object_store \<Rightarrow> world \<Rightarrow> world" where
  "commit this objectStore w =
     w\<lparr>databases := (databases w)(dbName this \<mapsto>
          (case databases w (dbName this) of None \<Rightarrow> Map.empty | Some db \<Rightarrow> db)
            (storageName this \<mapsto> objectStore))\<rparr>"

text \<open>
  Modelled from the spec: \<^verbatim>\<open>defaultStorageName\<close> is imported from storage-facade and is
  not part of the sources. The spec calls it a fixed default name; the README of the
  repository gives \<^verbatim>\<open>'storage'\<close>.
\<close>

definition defaultStorageName :: string where
  "defaultStorageName = ''storage''"

text \<open>
  \<^verbatim>\<open>initAsync(setup)\<close>, with \<^verbatim>\<open>setup.name\<close> and \<^verbatim>\<open>setup.dbName\<close> as options. The
  \<^verbatim>\<open>onupgradeneeded\<close> handler runs only when the database is new; a new database
  contains no object store, so the handler creates the store and its two indexes.
\<close>

definition initAsync ::
  "IndexedDBInterface \<Rightarrow> string option \<Rightarrow> string option \<Rightarrow> world \<Rightarrow> ok promise \<times> IndexedDBInterface \<times> world" where
  "initAsync this setup_name setup_dbName w =
     (let storageName' = (case setup_name of Some n \<Rightarrow> n | None \<Rightarrow> defaultStorageName);
          dbName' = (case setup_dbName of Some d \<Rightarrow> d | None \<Rightarrow> storageName');
          this' = this\<lparr>storageName := storageName', dbName := dbName'\<rparr>
      in case request (CallOpen dbName') (Inr ()) w of
           (Inl e, w1) \<Rightarrow> (Rejected e, this', w1)
         | (Inr _, w1) \<Rightarrow>
             (case databases w1 dbName' of
                None \<Rightarrow>
                  (Fulfilled Ok, this',
                   w1\<lparr>databases := (databases w1)(dbName' \<mapsto>
                         [storageName' \<mapsto> \<lparr>records = [], keygen = 1\<rparr>])\<rparr>)
              | Some db \<Rightarrow> (Fulfilled Ok, this', w1)))"

text \<open>
  \<^verbatim>\<open>getItemAsync(key)\<close>. The result of \<^verbatim>\<open>objectStore.get\<close> is a fresh deserialisation of
  the stored entry; the method reads its \<^verbatim>\<open>value\<close> only, so only the value is allocated
  in the caller's heap here.
\<close>

definition getItemAsync :: "IndexedDBInterface \<Rightarrow> string \<Rightarrow> world \<Rightarrow> jsval promise \<times> world" where
  "getItemAsync this k w =
     (case checkStorage this of
        Inl e \<Rightarrow> (Rejected e, w)
      | Inr _ \<Rightarrow>
     (case openObjectStore this w of
        (Inl p, w1) \<Rightarrow> (p, w1)
      | (Inr objectStore, w1) \<Rightarrow>
     (case request (CallKeysGetKey k) (Inr (keys_getKey (records objectStore) k)) w1 of
        (Inl e, w2) \<Rightarrow> (Rejected e, w2)
      | (Inr None, w2) \<Rightarrow> (Fulfilled JUndefined, w2)
      | (Inr (Some pk), w2) \<Rightarrow>
     (case request (CallGet pk) (Inr (store_get (records objectStore) pk)) w2 of
        (Inl e, w3) \<Rightarrow> (Rejected e, w3)
      | (Inr None, w3) \<Rightarrow> (Pending, w3)
      | (Inr (Some entry), w3) \<Rightarrow>
          (case deserialize (heap w3) (value entry) of
             (v, h) \<Rightarrow> (Fulfilled v, w3\<lparr>heap := h\<rparr>))))))"

text \<open>
  \<^verbatim>\<open>setItemAsync(key, value)\<close>. \<^verbatim>\<open>objectStore.add\<close> and \<^verbatim>\<open>objectStore.put\<close> clone their
  argument when they are called; a value that is not cloneable makes them throw inside
  the handler, and the promise is never settled. The \<^verbatim>\<open>add\<close> request has no handlers:
  the promise is resolved right after the call, whatever becomes of the request.
\<close>

definition setItemAsync :: "IndexedDBInterface \<Rightarrow> string \<Rightarrow> jsval \<Rightarrow> world \<Rightarrow> ok promise \<times> world" where
  "setItemAsync this k v w =
     (case checkStorage this of
        Inl e \<Rightarrow> (Rejected e, w)
      | Inr _ \<Rightarrow>
     (case openObjectStore this w of
        (Inl p, w1) \<Rightarrow> (p, w1)
      | (Inr objectStore, w1) \<Rightarrow>
     (case request (CallKeysGetKey k) (Inr (keys_getKey (records objectStore) k)) w1 of
        (Inl e, w2) \<Rightarrow> (Rejected e, w2)
      | (Inr None, w2) \<Rightarrow>
          (case request CallOpenCursorPrev (Inr (indexes_last (records objectStore))) w2 of
             (Inl e, w3) \<Rightarrow> (Rejected e, w3)
           | (Inr cursor, w3) \<Rightarrow>
               (let lastObjectIndex = (case cursor of Some lastEntry \<Rightarrow> index lastEntry | None \<Rightarrow> - 1)
                in case structuredSerialize (heap w3) v of
                     None \<Rightarrow> (Pending, w3)
                   | Some s \<Rightarrow>
                       (let newEntry = \<lparr>index = lastObjectIndex + 1, key = k, value = s\<rparr>
                        in case request (CallAdd newEntry) (store_add objectStore newEntry) w3 of
                             (Inl e, w4) \<Rightarrow> (Fulfilled Ok, w4)
                           | (Inr objectStore', w4) \<Rightarrow> (Fulfilled Ok, commit this objectStore' w4))))
      | (Inr (Some pk), w2) \<Rightarrow>
          (case request (CallGet pk) (Inr (store_get (records objectStore) pk)) w2 of
             (Inl e, w3) \<Rightarrow> (Rejected e, w3)
           | (Inr None, w3) \<Rightarrow> (Pending, w3)
           | (Inr (Some entry), w3) \<Rightarrow>
               (case structuredSerialize (heap w3) v of
                  None \<Rightarrow> (Pending, w3)
                | Some s \<Rightarrow>
                    (let entry' = entry\<lparr>value := s\<rparr>
                     in case request (CallPut entry' pk) (store_put objectStore entry' pk) w3 of
                          (Inl e, w4) \<Rightarrow> (Rejected e, w4)
                        | (Inr objectStore', w4) \<Rightarrow> (Fulfilled Ok, commit this objectStore' w4)))))))"

text \<open>
  The cursor loop of \<^verbatim>\<open>removeItemAsync\<close>: \<^verbatim>\<open>openCursorRequest.onsuccess\<close> runs once for
  the record the cursor opens at and once after every \<^verbatim>\<open>cursor.continue()\<close>. The cursor
  walks the object store itself, in ascending primary-key order from \<open>lo\<close>. A failed
  \<^verbatim>\<open>put\<close> or a failed step of the cursor rejects the promise and aborts the transaction.
\<close>

function compact :: "object_store \<Rightarrow> nat \<Rightarrow> world \<Rightarrow> (error + object_store) \<times> world" where
  "compact objectStore lo w =
     (case cursor_at (records objectStore) lo of
        None \<Rightarrow> (Inr objectStore, w)
      | Some cursor \<Rightarrow>
          (let currentKey = fst cursor;
               currentEntry = (snd cursor)\<lparr>index := index (snd cursor) - 1\<rparr>
           in case request (CallPut currentEntry currentKey)
                     (store_put objectStore currentEntry currentKey) w of
                (Inl e, w1) \<Rightarrow> (Inl e, w1)
              | (Inr objectStore', w1) \<Rightarrow>
                  (case request CallContinue (Inr ()) w1 of
                     (Inl e, w2) \<Rightarrow> (Inl e, w2)
                   | (Inr _, w2) \<Rightarrow> compact objectStore' (Suc currentKey) w2)))"
  by pat_completeness auto
termination
proof (relation "measure (\<lambda>(os, lo, w). length (filter (\<lambda>pk. lo \<le> pk) (map fst (records os))))",
    goal_cases)
  case 1
  then show ?case by simp
next
  case (2 objectStore lo w cursor currentKey currentEntry xb w1 os' xaa w2 u)
  have le: "length (filter P xs) \<le> length (filter Q xs)"
    if "\<forall>x. P x \<longrightarrow> Q x" for P Q :: "nat \<Rightarrow> bool" and xs
    using that by (induction xs) auto
  have less: "length (filter P xs) < length (filter Q xs)"
    if "\<forall>x. P x \<longrightarrow> Q x" "x \<in> set xs" "Q x" "\<not> P x" for P Q :: "nat \<Rightarrow> bool" and xs x
    using that
  proof (induction xs)
    case Nil
    then show ?case by simp
  next
    case (Cons y ys)
    show ?case
    proof (cases "x = y")
      case True
      then show ?thesis using Cons.prems le [of P Q ys] by simp
    next
      case False
      then have "length (filter P ys) < length (filter Q ys)" using Cons by simp
      then show ?thesis using Cons.prems(1) by auto
    qed
  qed
  from 2(1) have mem: "cursor \<in> set (records objectStore)" and ge: "lo \<le> fst cursor"
    by (auto simp: cursor_at_def find_Some_iff)
  from 2(4,5) have "store_put objectStore currentEntry currentKey = Inr os'"
    by (auto simp: request_def split: option.splits)
  then have "records os' = put_record (fst cursor) currentEntry (records objectStore)"
    using 2(2) by (auto simp: store_put_def split: if_splits)
  moreover have "map fst (put_record (fst cursor) currentEntry recs) = map fst recs"
    if "fst cursor \<in> fst ` set recs" for recs
    using that by (induction recs) (auto simp: put_record_def)
  ultimately have keys: "map fst (records os') = map fst (records objectStore)"
    using mem by simp
  have "length (filter (\<lambda>pk. Suc currentKey \<le> pk) (map fst (records os')))
        < length (filter (\<lambda>pk. lo \<le> pk) (map fst (records objectStore)))"
    unfolding keys 2(2)
    by (rule less [where x = "fst cursor"]) (use mem ge in auto)
  then show ?case by (simp only: in_measure prod.case)
qed

declare compact.simps [simp del]

text \<open>\<^verbatim>\<open>removeItemAsync(key)\<close>.\<close>

definition removeItemAsync :: "IndexedDBInterface \<Rightarrow> string \<Rightarrow> world \<Rightarrow> ok promise \<times> world" where
  "removeItemAsync this k w =
     (case checkStorage this of
        Inl e \<Rightarrow> (Rejected e, w)
      | Inr _ \<Rightarrow>
     (case openObjectStore this w of
        (Inl p, w1) \<Rightarrow> (p, w1)
      | (Inr objectStore, w1) \<Rightarrow>
     (case request (CallKeysGetKey k) (Inr (keys_getKey (records objectStore) k)) w1 of
        (Inl e, w2) \<Rightarrow> (Rejected e, w2)
      | (Inr None, w2) \<Rightarrow> (Fulfilled Ok, w2)
      | (Inr (Some keyToDel), w2) \<Rightarrow>
     (case request (CallDelete keyToDel) (Inr (store_delete objectStore keyToDel)) w2 of
        (Inl e, w3) \<Rightarrow> (Rejected e, w3)
      | (Inr objectStore1, w3) \<Rightarrow>
     (case request (CallOpenCursor keyToDel) (Inr ()) w3 of
        (Inl e, w4) \<Rightarrow> (Rejected e, w4)
      | (Inr _, w4) \<Rightarrow>
     (case compact objectStore1 keyToDel w4 of
        (Inl e, w5) \<Rightarrow> (Rejected e, w5)
      | (Inr objectStore2, w5) \<Rightarrow> (Fulfilled Ok, commit this objectStore2 w5)))))))"

text \<open>\<^verbatim>\<open>clearAsync()\<close>.\<close>

definition clearAsync :: "IndexedDBInterface \<Rightarrow> world \<Rightarrow> ok promise \<times> world" where
  "clearAsync this w =
     (case checkStorage this of
        Inl e \<Rightarrow> (Rejected e, w)
      | Inr _ \<Rightarrow>
     (case openObjectStore this w of
        (Inl p, w1) \<Rightarrow> (p, w1)
      | (Inr objectStore, w1) \<Rightarrow>
     (case request CallClear (Inr (store_clear objectStore)) w1 of
        (Inl e, w2) \<Rightarrow> (Rejected e, w2)
      | (Inr objectStore', w2) \<Rightarrow> (Fulfilled Ok, commit this objectStore' w2))))"

text \<open>\<^verbatim>\<open>sizeAsync()\<close>.\<close>

definition sizeAsync :: "IndexedDBInterface \<Rightarrow> world \<Rightarrow> nat promise \<times> world" where
  "sizeAsync this w =
     (case checkStorage this of
        Inl e \<Rightarrow> (Rejected e, w)
      | Inr _ \<Rightarrow>
     (case openObjectStore this w of
        (Inl p, w1) \<Rightarrow> (p, w1)
      | (Inr objectStore, w1) \<Rightarrow>
     (case request CallCount (Inr (store_count objectStore)) w1 of
        (Inl e, w2) \<Rightarrow> (Rejected e, w2)
      | (Inr n, w2) \<Rightarrow> (Fulfilled n, w2))))"

text \<open>\<^verbatim>\<open>keyAsync(index)\<close>; \<open>None\<close> is \<^verbatim>\<open>undefined\<close>.\<close>

definition keyAsync :: "IndexedDBInterface \<Rightarrow> int \<Rightarrow> world \<Rightarrow> string option promise \<times> world" where
  "keyAsync this i w =
     (case checkStorage this of
        Inl e \<Rightarrow> (Rejected e, w)
      | Inr _ \<Rightarrow>
     (case openObjectStore this w of
        (Inl p, w1) \<Rightarrow> (p, w1)
      | (Inr objectStore, w1) \<Rightarrow>
     (case request (CallIndexesGetKey i) (Inr (indexes_getKey (records objectStore) i)) w1 of
        (Inl e, w2) \<Rightarrow> (Rejected e, w2)
      | (Inr None, w2) \<Rightarrow> (Fulfilled None, w2)
      | (Inr (Some pk), w2) \<Rightarrow>
     (case request (CallGet pk) (Inr (store_get (records objectStore) pk)) w2 of
        (Inl e, w3) \<Rightarrow> (Rejected e, w3)
      | (Inr None, w3) \<Rightarrow> (Pending, w3)
      | (Inr (Some entry), w3) \<Rightarrow> (Fulfilled (Some (key entry)), w3)))))"

text \<open>
  \<^verbatim>\<open>deleteStorageAsync()\<close>: the only method besides \<^verbatim>\<open>initAsync\<close> that assigns a field of
  the instance, so it returns the instance too.
\<close>

definition deleteStorageAsync ::
  "IndexedDBInterface \<Rightarrow> world \<Rightarrow> ok promise \<times> IndexedDBInterface \<times> world" where
  "deleteStorageAsync this w =
     (case checkStorage this of
        Inl e \<Rightarrow> (Rejected e, this, w)
      | Inr _ \<Rightarrow>
     (case request (CallDeleteDatabase (dbName this)) (Inr ()) w of
        (Inl e, w1) \<Rightarrow> (Rejected e, this, w1)
      | (Inr _, w1) \<Rightarrow>
          (Fulfilled Ok, this\<lparr>isDeleted := True\<rparr>,
           w1\<lparr>databases := (databases w1)(dbName this := None)\<rparr>)))"

text \<open>A new instance, by the field initialisers of the class.\<close>

definition new_IndexedDBInterface :: IndexedDBInterface where
  "new_IndexedDBInterface = \<lparr>storageName = [], dbName = [], isDeleted = False\<rparr>"

text \<open>A browser without databases, an empty heap, an Engine that reports no failure.\<close>

definition empty_world :: world where
  "empty_world = \<lparr>databases = Map.empty, heap = [], faults = (\<lambda>c. None), calls = []\<rparr>"

text \<open>The object store an instance works on, if the world has it.\<close>

definition the_store :: "IndexedDBInterface \<Rightarrow> world \<Rightarrow> object_store option" where
  "the_store this w =
     (case databases w (dbName this) of None \<Rightarrow> None | Some db \<Rightarrow> db (storageName this))"

section \<open>The layer above the adapter\<close>

text \<open>
  Modelled from the spec: \<^verbatim>\<open>entries()\<close> is provided by storage-facade, whose code is not
  part of the sources. By the spec (4.1) it consults the Lifecycle Guard first and then
  yields the (key, value) pairs by ascending ordinal, each value read as \<^verbatim>\<open>get\<close> reads
  it; the pairs are collected here with \<open>sizeAsync\<close>, \<open>keyAsync\<close> and \<open>getItemAsync\<close>.
\<close>

fun entries_from ::
  "IndexedDBInterface \<Rightarrow> int list \<Rightarrow> world \<Rightarrow> (string \<times> jsval) list promise \<times> world" where
  "entries_from this [] w = (Fulfilled [], w)"
| "entries_from this (i # ordinals) w =
     (case keyAsync this i w of
        (Rejected e, w1) \<Rightarrow> (Rejected e, w1)
      | (Pending, w1) \<Rightarrow> (Pending, w1)
      | (Fulfilled None, w1) \<Rightarrow> entries_from this ordinals w1
      | (Fulfilled (Some k), w1) \<Rightarrow>
          (case getItemAsync this k w1 of
             (Rejected e, w2) \<Rightarrow> (Rejected e, w2)
           | (Pending, w2) \<Rightarrow> (Pending, w2)
           | (Fulfilled v, w2) \<Rightarrow>
               (case entries_from this ordinals w2 of
                  (Rejected e, w3) \<Rightarrow> (Rejected e, w3)
                | (Pending, w3) \<Rightarrow> (Pending, w3)
                | (Fulfilled kvs, w3) \<Rightarrow> (Fulfilled ((k, v) # kvs), w3))))"

definition entries :: "IndexedDBInterface \<Rightarrow> world \<Rightarrow> (string \<times> jsval) list promise \<times> world" where
  "entries this w =
     (case checkStorage this of
        Inl e \<Rightarrow> (Rejected e, w)
      | Inr _ \<Rightarrow>
          (case sizeAsync this w of
             (Rejected e, w1) \<Rightarrow> (Rejected e, w1)
           | (Pending, w1) \<Rightarrow> (Pending, w1)
           | (Fulfilled n, w1) \<Rightarrow> entries_from this (map int [0..<n]) w1))"

text \<open>
  Modelled from the spec: the Default Overlay and its consultation rule (4.2) belong to
  storage-facade, whose code is not part of the sources. The overlay maps keys to values;
  when \<^verbatim>\<open>get(key)\<close> returns the unset sentinel, the overlay value for that key is
  substituted if present, else the result is unset. The sentinel is \<^verbatim>\<open>undefined\<close>.
\<close>

definition consult_overlay :: "(string \<Rightarrow> jsval option) \<Rightarrow> string \<Rightarrow> jsval \<Rightarrow> jsval" where
  "consult_overlay overlay k r =
     (if r = JUndefined then (case overlay k of Some d \<Rightarrow> d | None \<Rightarrow> JUndefined) else r)"

definition get_with_overlay ::
  "(string \<Rightarrow> jsval option) \<Rightarrow> IndexedDBInterface \<Rightarrow> string \<Rightarrow> world \<Rightarrow> jsval promise \<times> world" where
  "get_with_overlay overlay this k w =
     (case getItemAsync this k w of
        (Fulfilled r, w1) \<Rightarrow> (Fulfilled (consult_overlay overlay k r), w1)
      | (Rejected e, w1) \<Rightarrow> (Rejected e, w1)
      | (Pending, w1) \<Rightarrow> (Pending, w1))"

section \<open>Well-formed stores\<close>

text \<open>
  What the Engine guarantees of any object store with the two unique indexes: primary
  keys ascend strictly and lie below the key generator's current number, no two records
  share an \<open>index\<close>, no two records share a \<open>key\<close>.
\<close>

definition wf_store :: "object_store \<Rightarrow> bool" where
  "wf_store os =
     (sorted_wrt (<) (map fst (records os))
      \<and> list_all (\<lambda>r. fst r < keygen os) (records os)
      \<and> distinct (map (\<lambda>r. index (snd r)) (records os))
      \<and> distinct (map (\<lambda>r. key (snd r)) (records os)))"

text \<open>
  The invariant of the adapter: in addition, the ordinals are \<open>0, 1, 2, ...\<close> in
  primary-key order, that is, in the order in which the records were added.
\<close>

definition store_inv :: "object_store \<Rightarrow> bool" where
  "store_inv os =
     (sorted_wrt (<) (map fst (records os))
      \<and> list_all (\<lambda>r. fst r < keygen os) (records os)
      \<and> map (\<lambda>r. index (snd r)) (records os) = map int [0..<length (records os)]
      \<and> distinct (map (\<lambda>r. key (snd r)) (records os)))"

text \<open>One above the greatest ordinal of the store; \<open>0\<close> for the empty store.\<close>

definition next_index :: "(nat \<times> stored Entry) list \<Rightarrow> int" where
  "next_index recs = (if recs = [] then 0 else Max ((\<lambda>r. index (snd r)) ` set recs) + 1)"

section \<open>Sequences of operations and a concrete store\<close>

text \<open>A caller that awaits every operation before issuing the next one.\<close>

datatype op = Set string jsval | Remove string

fun run_op :: "IndexedDBInterface \<Rightarrow> op \<Rightarrow> world \<Rightarrow> world" where
  "run_op this (Set k v) w = snd (setItemAsync this k v w)"
| "run_op this (Remove k) w = snd (removeItemAsync this k w)"

definition run_ops :: "IndexedDBInterface \<Rightarrow> op list \<Rightarrow> world \<Rightarrow> world" where
  "run_ops this ops w = fold (run_op this) ops w"

text \<open>
  The instance and the world of the tests: storage \<^verbatim>\<open>'settings'\<close> in a database of the
  same name, with given records, key generator and heap, and an Engine without failures.
\<close>

definition settings_instance :: IndexedDBInterface where
  "settings_instance = \<lparr>storageName = ''settings'', dbName = ''settings'', isDeleted = False\<rparr>"

definition settings_world :: "(nat \<times> stored Entry) list \<Rightarrow> nat \<Rightarrow> jsobj list \<Rightarrow> world" where
  "settings_world recs n h =
     \<lparr>databases = [''settings'' \<mapsto> [''settings'' \<mapsto> \<lparr>records = recs, keygen = n\<rparr>]],
      heap = h, faults = (\<lambda>c. None), calls = []\<rparr>"

text \<open>
  A read of \<open>k\<close> in world \<open>w\<close> is fulfilled with a deep copy of the value \<open>v\<close> of heap
  \<open>h\<close>: the result is deeply equal to \<open>v\<close>, and every cell of the result was allocated by
  this read, so the result shares no cell with anything that existed before.
\<close>

definition reads_deep_copy ::
  "IndexedDBInterface \<Rightarrow> string \<Rightarrow> world \<Rightarrow> jsobj list \<Rightarrow> jsval \<Rightarrow> bool" where
  "reads_deep_copy this k w h v =
     (case getItemAsync this k w of
        (Fulfilled r, w') \<Rightarrow>
          (\<exists>R. deep_equal_by R h v (heap w') r \<and> list_all (\<lambda>p. length (heap w) \<le> snd p) R)
      | (Rejected e, w') \<Rightarrow> False
      | (Pending, w') \<Rightarrow> False)"

text \<open>What one step of the cursor loop writes back: the record with its ordinal lowered by one.\<close>

definition decrement :: "nat \<times> stored Entry \<Rightarrow> nat \<times> stored Entry" where
  "decrement r = (fst r, (snd r)\<lparr>index := index (snd r) - 1\<rparr>)"

section \<open>The ordered store of the spec\<close>

text \<open>
  The spec's view of a store, for comparison with the code: the (key, value) pairs in
  insertion order, an entry's ordinal being its place in the list. \<open>set\<close> replaces the
  value of an existing key in place and puts a new key at the end; \<open>remove\<close> takes the
  key out. The spec leaves misuse out of scope: a \<open>set\<close> whose value is not
  structured-cloneable (a function) never completes in the code and changes nothing.
\<close>

fun spec_set :: "string \<Rightarrow> stored \<Rightarrow> (string \<times> stored) list \<Rightarrow> (string \<times> stored) list" where
  "spec_set k s [] = [(k, s)]"
| "spec_set k s (x # xs) = (if fst x = k then (k, s) # xs else x # spec_set k s xs)"

definition spec_remove :: "string \<Rightarrow> (string \<times> stored) list \<Rightarrow> (string \<times> stored) list" where
  "spec_remove k xs = filter (\<lambda>x. fst x \<noteq> k) xs"

fun spec_op :: "jsobj list \<Rightarrow> op \<Rightarrow> (string \<times> stored) list \<Rightarrow> (string \<times> stored) list" where
  "spec_op h (Set k v) xs =
     (case structuredSerialize h v of None \<Rightarrow> xs | Some s \<Rightarrow> spec_set k s xs)"
| "spec_op h (Remove k) xs = spec_remove k xs"

definition spec_run :: "jsobj list \<Rightarrow> op list \<Rightarrow> (string \<times> stored) list" where
  "spec_run h ops = fold (spec_op h) ops []"

text \<open>The (key, value) pairs of the records of a store, in primary-key order.\<close>

definition entries_of :: "(nat \<times> stored Entry) list \<Rightarrow> (string \<times> stored) list" where
  "entries_of recs = map (\<lambda>r. (key (snd r), value (snd r))) recs"

section \<open>The lifecycle guard\<close>

lemma checkStorage_deleted:
  "isDeleted this \<Longrightarrow> checkStorage this = Inl (Error ''This Storage was deleted!'')"
  by (simp add: checkStorage_def)

lemma deleteStorageAsync_Fulfilled:
  assumes "deleteStorageAsync this w = (Fulfilled Ok, this', w')"
  shows "isDeleted this'" and "\<not> isDeleted this"
  using assms
  by (auto simp: deleteStorageAsync_def checkStorage_def request_def
      split: if_splits option.splits)

text \<open>
  C9. \<^verbatim>\<open>deleteStorageAsync\<close> calls \<^verbatim>\<open>checkStorage\<close> before anything else: once one call has
  been fulfilled, a second call, in whatever world, is rejected with
  \<^verbatim>\<open>Error('This Storage was deleted!')\<close>, and neither the instance nor the world (the
  recorded requests included) changes, so the Engine is not contacted.
\<close>

theorem deleteStorage_twice_rejected:
  assumes "deleteStorageAsync this w = (Fulfilled Ok, this', w')"
  shows "deleteStorageAsync this' w'' =
           (Rejected (Error ''This Storage was deleted!''), this', w'')"
  using deleteStorageAsync_Fulfilled(1) [OF assms]
  by (simp add: deleteStorageAsync_def checkStorage_def)

theorem deleteStorage_twice_rejected_witness:
  "deleteStorageAsync (new_IndexedDBInterface\<lparr>dbName := ''settings''\<rparr>) empty_world =
     (Fulfilled Ok,
      new_IndexedDBInterface\<lparr>dbName := ''settings'', isDeleted := True\<rparr>,
      empty_world\<lparr>calls := [CallDeleteDatabase ''settings''],
        databases := (databases empty_world)(''settings'' := None)\<rparr>)
   \<and> deleteStorageAsync (new_IndexedDBInterface\<lparr>dbName := ''settings'', isDeleted := True\<rparr>)
        empty_world =
     (Rejected (Error ''This Storage was deleted!''),
      new_IndexedDBInterface\<lparr>dbName := ''settings'', isDeleted := True\<rparr>, empty_world)"
proof -
  have first: "deleteStorageAsync (new_IndexedDBInterface\<lparr>dbName := ''settings''\<rparr>) empty_world =
     (Fulfilled Ok,
      new_IndexedDBInterface\<lparr>dbName := ''settings'', isDeleted := True\<rparr>,
      empty_world\<lparr>calls := [CallDeleteDatabase ''settings''],
        databases := (databases empty_world)(''settings'' := None)\<rparr>)"
    by (simp add: deleteStorageAsync_def checkStorage_def request_def
        new_IndexedDBInterface_def empty_world_def)
  show ?thesis
    using first deleteStorage_twice_rejected [OF first, of empty_world] by simp
qed

text \<open>
  C10. If the Engine reports a failure of \<^verbatim>\<open>deleteDatabase\<close>, the promise is rejected with
  the Engine's error, \<^verbatim>\<open>isDeleted\<close> stays false, the databases are untouched and the guard
  lets later operations pass. Of an instance that is not deleted, whatever the Engine
  does, the flag is true after the call exactly when the promise was fulfilled.
\<close>

theorem deleteStorage_failure_keeps_flag:
  assumes "\<not> isDeleted this"
  shows "(faults w (CallDeleteDatabase (dbName this)) = Some m \<longrightarrow>
            deleteStorageAsync this w =
              (Rejected (DOMException m), this,
               w\<lparr>calls := calls w @ [CallDeleteDatabase (dbName this)]\<rparr>)
            \<and> checkStorage (fst (snd (deleteStorageAsync this w))) = Inr ())
         \<and> (isDeleted (fst (snd (deleteStorageAsync this w)))
              \<longleftrightarrow> fst (deleteStorageAsync this w) = Fulfilled Ok)"
  using assms
  by (auto simp: deleteStorageAsync_def checkStorage_def request_def split: option.splits)

theorem deleteStorage_failure_keeps_flag_witness:
  "\<not> isDeleted (new_IndexedDBInterface\<lparr>dbName := ''settings''\<rparr>)
   \<and> faults (empty_world\<lparr>faults := (\<lambda>c. Some ''UnknownError'')\<rparr>)
         (CallDeleteDatabase (dbName (new_IndexedDBInterface\<lparr>dbName := ''settings''\<rparr>)))
       = Some ''UnknownError''
   \<and> deleteStorageAsync (new_IndexedDBInterface\<lparr>dbName := ''settings''\<rparr>)
         (empty_world\<lparr>faults := (\<lambda>c. Some ''UnknownError'')\<rparr>)
       = (Rejected (DOMException ''UnknownError''),
          new_IndexedDBInterface\<lparr>dbName := ''settings''\<rparr>,
          empty_world\<lparr>faults := (\<lambda>c. Some ''UnknownError''),
            calls := [CallDeleteDatabase ''settings'']\<rparr>)
   \<and> \<not> isDeleted (fst (snd (deleteStorageAsync (new_IndexedDBInterface\<lparr>dbName := ''settings''\<rparr>)
         (empty_world\<lparr>faults := (\<lambda>c. Some ''UnknownError'')\<rparr>))))"
proof -
  have live: "\<not> isDeleted (new_IndexedDBInterface\<lparr>dbName := ''settings''\<rparr>)"
    by (simp add: new_IndexedDBInterface_def)
  show ?thesis
    using live
      deleteStorage_failure_keeps_flag [OF live,
        of "empty_world\<lparr>faults := (\<lambda>c. Some ''UnknownError'')\<rparr>" "''UnknownError''"]
    by (simp add: empty_world_def new_IndexedDBInterface_def)
qed

text \<open>
  C6. Once \<^verbatim>\<open>deleteStorageAsync\<close> has been fulfilled, every data operation on the instance,
  in whatever world and with whatever arguments, is rejected with
  \<^verbatim>\<open>Error('This Storage was deleted!')\<close> and returns the world as it was: no request has
  been recorded, so the Engine was not contacted.
\<close>

theorem deleted_storage_rejects_all:
  assumes "deleteStorageAsync this w = (Fulfilled Ok, this', w')"
  shows "getItemAsync this' k w2 = (Rejected (Error ''This Storage was deleted!''), w2)
       \<and> setItemAsync this' k v w2 = (Rejected (Error ''This Storage was deleted!''), w2)
       \<and> removeItemAsync this' k w2 = (Rejected (Error ''This Storage was deleted!''), w2)
       \<and> clearAsync this' w2 = (Rejected (Error ''This Storage was deleted!''), w2)
       \<and> sizeAsync this' w2 = (Rejected (Error ''This Storage was deleted!''), w2)
       \<and> keyAsync this' i w2 = (Rejected (Error ''This Storage was deleted!''), w2)
       \<and> entries this' w2 = (Rejected (Error ''This Storage was deleted!''), w2)"
  using checkStorage_deleted [OF deleteStorageAsync_Fulfilled(1) [OF assms]]
  by (simp add: getItemAsync_def setItemAsync_def removeItemAsync_def clearAsync_def
      sizeAsync_def keyAsync_def entries_def)

theorem deleted_storage_rejects_all_witness:
  "deleteStorageAsync (new_IndexedDBInterface\<lparr>dbName := ''settings''\<rparr>) empty_world =
     (Fulfilled Ok,
      new_IndexedDBInterface\<lparr>dbName := ''settings'', isDeleted := True\<rparr>,
      empty_world\<lparr>calls := [CallDeleteDatabase ''settings''],
        databases := (databases empty_world)(''settings'' := None)\<rparr>)
   \<and> getItemAsync (new_IndexedDBInterface\<lparr>dbName := ''settings'', isDeleted := True\<rparr>)
        ''value'' empty_world =
     (Rejected (Error ''This Storage was deleted!''), empty_world)
   \<and> setItemAsync (new_IndexedDBInterface\<lparr>dbName := ''settings'', isDeleted := True\<rparr>)
        ''value'' (JNum 42) empty_world =
     (Rejected (Error ''This Storage was deleted!''), empty_world)
   \<and> entries (new_IndexedDBInterface\<lparr>dbName := ''settings'', isDeleted := True\<rparr>) empty_world =
     (Rejected (Error ''This Storage was deleted!''), empty_world)"
proof -
  have first: "deleteStorageAsync (new_IndexedDBInterface\<lparr>dbName := ''settings''\<rparr>) empty_world =
     (Fulfilled Ok,
      new_IndexedDBInterface\<lparr>dbName := ''settings'', isDeleted := True\<rparr>,
      empty_world\<lparr>calls := [CallDeleteDatabase ''settings''],
        databases := (databases empty_world)(''settings'' := None)\<rparr>)"
    by (simp add: deleteStorageAsync_def checkStorage_def request_def
        new_IndexedDBInterface_def empty_world_def)
  show ?thesis
    using first
      deleted_storage_rejects_all [OF first, of "''value''" empty_world "JNum 42" 0]
    by simp
qed

section \<open>Requests and lookups\<close>

lemma request_ok [simp]:
  "faults w c = None \<Longrightarrow> request c a w = (a, w\<lparr>calls := calls w @ [c]\<rparr>)"
  by (simp add: request_def)

lemma request_cases:
  assumes "request c a w = (r, w')"
  shows "w' = w\<lparr>calls := calls w @ [c]\<rparr>" and "r = a \<or> (\<exists>m. r = Inl (DOMException m))"
  using assms by (auto simp: request_def split: option.splits)

lemma the_store_calls [simp]: "the_store this (w\<lparr>calls := cs\<rparr>) = the_store this w"
  by (simp add: the_store_def)

lemma the_store_heap [simp]: "the_store this (w\<lparr>heap := h\<rparr>) = the_store this w"
  by (simp add: the_store_def)

lemma the_store_commit [simp]: "the_store this (commit this os w) = Some os"
  by (simp add: the_store_def commit_def)

lemma commit_fields [simp]:
  "heap (commit this os w) = heap w" "faults (commit this os w) = faults w"
  "calls (commit this os w) = calls w"
  by (simp_all add: commit_def)

lemma openObjectStore_live:
  assumes "the_store this w = Some os"
  shows "openObjectStore this w =
           (case faults w (CallOpen (dbName this)) of
              None \<Rightarrow> Inr os | Some m \<Rightarrow> Inl (Rejected (DOMException m)),
            w\<lparr>calls := calls w @ [CallOpen (dbName this)]\<rparr>)"
  using assms
  by (auto simp: openObjectStore_def idb_open_def request_def the_store_def split: option.splits)

lemma keys_getKey_None: "keys_getKey recs k = None \<longleftrightarrow> (\<forall>r \<in> set recs. key (snd r) \<noteq> k)"
  by (induction recs) (auto simp: keys_getKey_def)

lemma keys_getKey_Some:
  assumes "keys_getKey recs k = Some pk"
  shows "\<exists>e. (pk, e) \<in> set recs \<and> key e = k"
  using assms by (induction recs) (auto simp: keys_getKey_def split: if_splits)

lemma indexes_last_None: "indexes_last recs = None \<longleftrightarrow> recs = []"
  by (induction recs) (auto split: option.splits)

lemma indexes_last_Max:
  "recs \<noteq> [] \<Longrightarrow> \<exists>m. indexes_last recs = Some m \<and> index m = Max ((\<lambda>r. index (snd r)) ` set recs)"
proof (induction recs)
  case Nil then show ?case by simp
next
  case (Cons r rs)
  show ?case
  proof (cases "rs = []")
    case True then show ?thesis by simp
  next
    case False
    with Cons obtain m where m: "indexes_last rs = Some m" "index m = Max ((\<lambda>r. index (snd r)) ` set rs)" by blast
    have fin: "finite ((\<lambda>r. index (snd r)) ` set rs)" "(\<lambda>r. index (snd r)) ` set rs \<noteq> {}" using False by auto
    show ?thesis using m fin by (auto simp: max_def)
  qed
qed


lemma store_inv_wf: "store_inv os \<Longrightarrow> wf_store os"
  by (simp add: store_inv_def wf_store_def distinct_map inj_on_def)

lemma lastObjectIndex_next:
  "(case indexes_last recs of Some lastEntry \<Rightarrow> index lastEntry | None \<Rightarrow> - 1) + 1 = next_index recs"
proof (cases "recs = []")
  case True
  then show ?thesis by (simp add: next_index_def)
next
  case False
  from indexes_last_Max [OF this] show ?thesis using False by (auto simp: next_index_def)
qed

lemma next_index_fresh: "r \<in> set recs \<Longrightarrow> index (snd r) < next_index recs"
proof -
  assume r: "r \<in> set recs"
  then have "index (snd r) \<in> (\<lambda>r. index (snd r)) ` set recs" by (rule imageI)
  then have "index (snd r) \<le> Max ((\<lambda>r. index (snd r)) ` set recs)" by simp
  then show ?thesis using r by (auto simp: next_index_def)
qed

lemma insort_key_end:
  "\<forall>r \<in> set recs. fst r < pk \<Longrightarrow> insort_key fst (pk, e) recs = recs @ [(pk, e)]"
  by (induction recs) auto

lemma put_record_new:
  "\<forall>r \<in> set recs. fst r < pk \<Longrightarrow> put_record pk e recs = recs @ [(pk, e)]"
  by (auto simp: put_record_def insort_key_end)

lemma put_record_old:
  "pk \<in> fst ` set recs \<Longrightarrow> put_record pk e recs = map (\<lambda>r. if fst r = pk then (pk, e) else r) recs"
  by (simp add: put_record_def)

lemma store_add_wf:
  assumes "wf_store os" and "\<forall>r \<in> set (records os). key (snd r) \<noteq> key e"
    and "\<forall>r \<in> set (records os). index (snd r) \<noteq> index e"
  shows "store_add os e =
           Inr (os\<lparr>records := records os @ [(keygen os, e)], keygen := Suc (keygen os)\<rparr>)"
proof -
  from assms(1) have lt: "\<forall>r \<in> set (records os). fst r < keygen os"
    by (simp add: wf_store_def list_all_iff)
  then have "keygen os \<notin> fst ` set (records os)" by auto
  moreover have "\<not> violates (records os) (keygen os) e"
    using assms(2,3) by (simp add: violates_def list_ex_iff)
  ultimately show ?thesis using lt by (simp add: store_add_def Let_def put_record_new)
qed

lemma wf_not_violates:
  assumes "wf_store os" and "(pk, e) \<in> set (records os)" and "index e' = index e" and "key e' = key e"
  shows "\<not> violates (records os) pk e'"
proof -
  from assms(1) have inj: "inj_on (\<lambda>r. index (snd r)) (set (records os))"
    "inj_on (\<lambda>r. key (snd r)) (set (records os))"
    by (simp_all add: wf_store_def distinct_map)
  show ?thesis
  proof
    assume "violates (records os) pk e'"
    then obtain r where r: "r \<in> set (records os)" "fst r \<noteq> pk"
      "index (snd r) = index e' \<or> key (snd r) = key e'"
      by (auto simp: violates_def list_ex_iff)
    then have "r = (pk, e)"
      using assms(2-4) inj by (auto simp: inj_on_def)
    then show False using r(2) by simp
  qed
qed

lemma store_put_wf:
  assumes "wf_store os" and "(pk, e) \<in> set (records os)" and "index e' = index e" and "key e' = key e"
  shows "store_put os e' pk =
           Inr (os\<lparr>records := map (\<lambda>r. if fst r = pk then (pk, e') else r) (records os)\<rparr>)"
proof -
  from assms(1,2) have "pk < keygen os" by (auto simp: wf_store_def list_all_iff)
  then have "max (keygen os) (Suc pk) = keygen os" by simp
  moreover have "pk \<in> fst ` set (records os)" using assms(2) by force
  ultimately show ?thesis
    using wf_not_violates [OF assms] by (simp add: store_put_def put_record_old)
qed

lemma wf_distinct_pks: "wf_store os \<Longrightarrow> distinct (map fst (records os))"
  by (simp add: wf_store_def strict_sorted_iff)

lemma store_get_wf:
  "wf_store os \<Longrightarrow> (pk, e) \<in> set (records os) \<Longrightarrow> store_get (records os) pk = Some e"
  by (simp add: store_get_def wf_distinct_pks)

lemma keys_getKey_wf:
  assumes "wf_store os" and "(pk, e) \<in> set (records os)"
  shows "keys_getKey (records os) (key e) = Some pk"
proof -
  from assms(2) have "\<not> (\<forall>r \<in> set (records os). key (snd r) \<noteq> key e)" by force
  then obtain pk' where pk': "keys_getKey (records os) (key e) = Some pk'"
    using keys_getKey_None [of "records os" "key e"] by (cases "keys_getKey (records os) (key e)") auto
  from keys_getKey_Some [OF this] obtain e' where e': "(pk', e') \<in> set (records os)" "key e' = key e"
    by blast
  from assms(1) have "inj_on (\<lambda>r. key (snd r)) (set (records os))"
    by (simp add: wf_store_def distinct_map)
  from inj_onD [OF this, of "(pk', e')" "(pk, e)"]
  have "(pk', e') = (pk, e)" using e' assms(2) by simp
  then show ?thesis using pk' by simp
qed


lemma checkStorage_live [simp]: "\<not> isDeleted this \<Longrightarrow> checkStorage this = Inr ()"
  by (simp add: checkStorage_def)

lemma openObjectStore_ok:
  assumes "the_store this w = Some os" and "faults w = (\<lambda>c. None)"
  shows "openObjectStore this w = (Inr os, w\<lparr>calls := calls w @ [CallOpen (dbName this)]\<rparr>)"
  using assms by (simp add: openObjectStore_live)

lemma setItemAsync_new:
  assumes "\<not> isDeleted this" and "the_store this w = Some os" and "faults w = (\<lambda>c. None)"
    and "wf_store os" and "\<forall>r \<in> set (records os). key (snd r) \<noteq> k"
    and "structuredSerialize (heap w) v = Some s"
  shows "setItemAsync this k v w =
           (Fulfilled Ok,
            commit this
              (os\<lparr>records := records os @
                     [(keygen os, \<lparr>index = next_index (records os), key = k, value = s\<rparr>)],
                  keygen := Suc (keygen os)\<rparr>)
              (w\<lparr>calls := calls w @
                    [CallOpen (dbName this), CallKeysGetKey k, CallOpenCursorPrev,
                     CallAdd \<lparr>index = next_index (records os), key = k, value = s\<rparr>]\<rparr>))"
proof -
  have none: "keys_getKey (records os) k = None"
    using assms(5) by (simp add: keys_getKey_None)
  have fresh: "\<forall>r \<in> set (records os). index (snd r) \<noteq> next_index (records os)"
    using next_index_fresh [of _ "records os"] by fastforce
  have add: "store_add os \<lparr>index = next_index (records os), key = k, value = s\<rparr> =
      Inr (os\<lparr>records := records os @
                [(keygen os, \<lparr>index = next_index (records os), key = k, value = s\<rparr>)],
              keygen := Suc (keygen os)\<rparr>)"
    using assms(4,5) fresh by (intro store_add_wf) simp_all
  show ?thesis
    using assms(1,3,6) none add
    by (simp add: setItemAsync_def openObjectStore_ok [OF assms(2,3)] lastObjectIndex_next Let_def)
qed

lemma setItemAsync_update:
  assumes "\<not> isDeleted this" and "the_store this w = Some os" and "faults w = (\<lambda>c. None)"
    and "wf_store os" and "(pk, e) \<in> set (records os)" and "key e = k"
    and "structuredSerialize (heap w) v = Some s"
  shows "setItemAsync this k v w =
           (Fulfilled Ok,
            commit this
              (os\<lparr>records := map (\<lambda>r. if fst r = pk then (pk, e\<lparr>value := s\<rparr>) else r) (records os)\<rparr>)
              (w\<lparr>calls := calls w @
                    [CallOpen (dbName this), CallKeysGetKey k, CallGet pk,
                     CallPut (e\<lparr>value := s\<rparr>) pk]\<rparr>))"
proof -
  have some: "keys_getKey (records os) k = Some pk"
    using keys_getKey_wf [OF assms(4,5)] assms(6) by simp
  have get: "store_get (records os) pk = Some e"
    by (rule store_get_wf [OF assms(4,5)])
  have put: "store_put os (e\<lparr>value := s\<rparr>) pk =
      Inr (os\<lparr>records := map (\<lambda>r. if fst r = pk then (pk, e\<lparr>value := s\<rparr>) else r) (records os)\<rparr>)"
    by (rule store_put_wf [OF assms(4,5)]) simp_all
  show ?thesis
    using assms(1,3,7) some get put
    by (simp add: setItemAsync_def openObjectStore_ok [OF assms(2,3)] Let_def)
qed

lemma getItemAsync_absent:
  assumes "\<not> isDeleted this" and "the_store this w = Some os" and "faults w = (\<lambda>c. None)"
    and "\<forall>r \<in> set (records os). key (snd r) \<noteq> k"
  shows "getItemAsync this k w =
           (Fulfilled JUndefined,
            w\<lparr>calls := calls w @ [CallOpen (dbName this), CallKeysGetKey k]\<rparr>)"
proof -
  have none: "keys_getKey (records os) k = None"
    using assms(4) by (simp add: keys_getKey_None)
  show ?thesis
    using assms(1,3) none
    by (simp add: getItemAsync_def openObjectStore_ok [OF assms(2,3)])
qed

lemma getItemAsync_present:
  assumes "\<not> isDeleted this" and "the_store this w = Some os" and "faults w = (\<lambda>c. None)"
    and "wf_store os" and "(pk, e) \<in> set (records os)" and "key e = k"
  shows "getItemAsync this k w =
           (Fulfilled (fst (deserialize (heap w) (value e))),
            w\<lparr>calls := calls w @ [CallOpen (dbName this), CallKeysGetKey k, CallGet pk],
              heap := snd (deserialize (heap w) (value e))\<rparr>)"
proof -
  have some: "keys_getKey (records os) k = Some pk"
    using keys_getKey_wf [OF assms(4,5)] assms(6) by simp
  have get: "store_get (records os) pk = Some e"
    by (rule store_get_wf [OF assms(4,5)])
  show ?thesis
    using assms(1,3) some get
    by (simp add: getItemAsync_def openObjectStore_ok [OF assms(2,3)] split: prod.splits)
qed

section \<open>What \<^verbatim>\<open>setItemAsync\<close> stores and \<^verbatim>\<open>getItemAsync\<close> reads\<close>

lemma wf_store_append:
  assumes "wf_store os" and "\<forall>r \<in> set (records os). key (snd r) \<noteq> key e"
    and "\<forall>r \<in> set (records os). index (snd r) \<noteq> index e"
  shows "wf_store (os\<lparr>records := records os @ [(keygen os, e)], keygen := Suc (keygen os)\<rparr>)"
  using assms
  by (auto simp: wf_store_def sorted_wrt_append list_all_iff less_Suc_eq)

lemma replace_split:
  assumes "distinct (map fst (pre @ (pk, e) # post))"
  shows "map (\<lambda>r. if fst r = pk then (pk, e') else r) (pre @ (pk, e) # post) = pre @ (pk, e') # post"
proof -
  have "\<forall>r \<in> set pre \<union> set post. fst r \<noteq> pk" using assms by force
  then have "map (\<lambda>r. if fst r = pk then (pk, e') else r) pre = pre"
    and "map (\<lambda>r. if fst r = pk then (pk, e') else r) post = post"
    by (simp_all add: map_idI)
  then show ?thesis by simp
qed

lemma wf_store_update:
  assumes "wf_store os" and "(pk, e) \<in> set (records os)" and "index e' = index e" and "key e' = key e"
  shows "wf_store (os\<lparr>records := map (\<lambda>r. if fst r = pk then (pk, e') else r) (records os)\<rparr>)"
proof -
  from assms(2) obtain pre post where split: "records os = pre @ (pk, e) # post"
    by (auto simp: in_set_conv_decomp)
  have "distinct (map fst (pre @ (pk, e) # post))"
    using wf_distinct_pks [OF assms(1)] split by simp
  from replace_split [OF this, of e'] show ?thesis
    using assms(1,3,4) split by (simp add: wf_store_def)
qed

lemma update_member:
  "(pk, e) \<in> set recs \<Longrightarrow> (pk, e') \<in> set (map (\<lambda>r. if fst r = pk then (pk, e') else r) recs)"
  by (induction recs) auto

lemma key_present_or_absent:
  "(\<forall>r \<in> set recs. key (snd r) \<noteq> k) \<or> (\<exists>pk e. (pk, e) \<in> set recs \<and> key e = k)"
  by force

lemma set_then_stored:
  assumes "\<not> isDeleted this" and "the_store this w = Some os" and "faults w = (\<lambda>c. None)"
    and "wf_store os" and "structuredSerialize (heap w) v = Some s"
  shows "fst (setItemAsync this k v w) = Fulfilled Ok
       \<and> heap (snd (setItemAsync this k v w)) = heap w
       \<and> faults (snd (setItemAsync this k v w)) = faults w
       \<and> (\<exists>os' pk e. the_store this (snd (setItemAsync this k v w)) = Some os' \<and> wf_store os'
             \<and> (pk, e) \<in> set (records os') \<and> key e = k \<and> value e = s)"
proof -
  consider (new) "\<forall>r \<in> set (records os). key (snd r) \<noteq> k"
    | (old) pk e where "(pk, e) \<in> set (records os)" "key e = k"
    using key_present_or_absent [of "records os" k] by blast
  then show ?thesis
  proof cases
    case new
    let ?e = "\<lparr>index = next_index (records os), key = k, value = s\<rparr>"
    let ?os = "os\<lparr>records := records os @ [(keygen os, ?e)], keygen := Suc (keygen os)\<rparr>"
    note eq = setItemAsync_new [OF assms(1-4) new assms(5)]
    have fresh: "\<forall>r \<in> set (records os). index (snd r) \<noteq> index ?e"
      using next_index_fresh [of _ "records os"] by fastforce
    have wf: "wf_store ?os"
      using assms(4) new fresh by (intro wf_store_append) simp_all
    have mem: "(keygen os, ?e) \<in> set (records ?os)" "key ?e = k" "value ?e = s" by simp_all
    have "the_store this (snd (setItemAsync this k v w)) = Some ?os"
      "fst (setItemAsync this k v w) = Fulfilled Ok"
      "heap (snd (setItemAsync this k v w)) = heap w"
      "faults (snd (setItemAsync this k v w)) = faults w"
      by (simp_all add: eq)
    with wf mem show ?thesis by blast
  next
    case old
    let ?e = "e\<lparr>value := s\<rparr>"
    let ?os = "os\<lparr>records := map (\<lambda>r. if fst r = pk then (pk, ?e) else r) (records os)\<rparr>"
    note eq = setItemAsync_update [OF assms(1-4) old assms(5)]
    have wf: "wf_store ?os"
      by (rule wf_store_update [OF assms(4) old(1)]) simp_all
    have mem: "(pk, ?e) \<in> set (records ?os)" "key ?e = k" "value ?e = s"
      using update_member [OF old(1), of ?e] old(2) by simp_all
    have "the_store this (snd (setItemAsync this k v w)) = Some ?os"
      "fst (setItemAsync this k v w) = Fulfilled Ok"
      "heap (snd (setItemAsync this k v w)) = heap w"
      "faults (snd (setItemAsync this k v w)) = faults w"
      by (simp_all add: eq)
    with wf mem show ?thesis by blast
  qed
qed

lemma set_then_get:
  assumes "\<not> isDeleted this" and "the_store this w = Some os" and "faults w = (\<lambda>c. None)"
    and "wf_store os" and "structuredSerialize (heap w) v = Some s"
    and "databases w2 = databases (snd (setItemAsync this k v w))" and "faults w2 = (\<lambda>c. None)"
  shows "fst (getItemAsync this k w2) = Fulfilled (fst (deserialize (heap w2) s))"
    and "heap (snd (getItemAsync this k w2)) = snd (deserialize (heap w2) s)"
    and "databases (snd (getItemAsync this k w2)) = databases w2"
    and "faults (snd (getItemAsync this k w2)) = faults w2"
proof -
  from set_then_stored [OF assms(1-5), of k] obtain os' pk e where
    st: "the_store this (snd (setItemAsync this k v w)) = Some os'" "wf_store os'"
      "(pk, e) \<in> set (records os')" "key e = k" "value e = s"
    by blast
  have st2: "the_store this w2 = Some os'"
    using st(1) assms(6) by (simp add: the_store_def)
  note eq = getItemAsync_present [OF assms(1) st2 assms(7) st(2,3,4)]
  show "fst (getItemAsync this k w2) = Fulfilled (fst (deserialize (heap w2) s))"
    and "heap (snd (getItemAsync this k w2)) = snd (deserialize (heap w2) s)"
    and "databases (snd (getItemAsync this k w2)) = databases w2"
    and "faults (snd (getItemAsync this k w2)) = faults w2"
    by (simp_all add: eq st(5))
qed

section \<open>The structured clone is a deep copy\<close>

lemma shift_pairs_mem: "(a, b) \<in> set (shift_pairs n m) \<longleftrightarrow> a < m \<and> b = n + a"
  by (auto simp: shift_pairs_def)

lemma same_val_shift:
  "list_all (\<lambda>a. a < m) (val_refs v) \<Longrightarrow> same_val (shift_pairs n m) v (shift_val n v)"
  by (cases v) (simp_all add: shift_pairs_mem)

lemma same_obj_shift:
  assumes "list_all (\<lambda>v. list_all (\<lambda>a. a < m) (val_refs v)) (obj_vals x)"
  shows "same_obj (shift_pairs n m) x (shift_obj n x)"
proof (cases x)
  case (JObject kvs)
  then show ?thesis
    using assms by (simp add: list_all2_map2 list_all_iff list_all2_same same_val_shift)
next
  case (JArray vs)
  then show ?thesis
    using assms by (simp add: list_all2_map2 list_all_iff list_all2_same same_val_shift)
qed

lemma reach_step_mono: "set as \<subseteq> set (reach_step h as)"
  by (simp add: reach_step_def)

lemma reach_funpow_mono: "set as \<subseteq> set ((reach_step h ^^ n) as)"
proof (induction n)
  case 0
  then show ?case by simp
next
  case (Suc n)
  then show ?case using reach_step_mono [of "(reach_step h ^^ n) as" h] by auto
qed

lemma cloneable_root:
  assumes "cloneable h v"
  shows "list_all (\<lambda>a. a < length h) (val_refs v)"
proof -
  have "set (val_refs v) \<subseteq> set (reachable h v)"
    unfolding reachable_def by (rule reach_funpow_mono)
  then show ?thesis using assms by (auto simp: cloneable_def list_all_iff)
qed

lemma deserialize_deep_equal:
  assumes "structuredSerialize h v = Some s" and "closed_heap h"
  shows "deep_equal_by (if val_refs v = [] then [] else shift_pairs (length h1) (length h))
           h v (snd (deserialize h1 s)) (fst (deserialize h1 s))"
proof -
  from assms(1) have c: "cloneable h v"
    and s: "s = Snapshot v (if val_refs v = [] then [] else h)"
    by (auto simp: structuredSerialize_def split: if_splits)
  note root = cloneable_root [OF c]
  show ?thesis
  proof (cases "val_refs v = []")
    case True
    then have "shift_val (length h1) v = v" by (cases v) simp_all
    moreover have "same_val [] v v" using True by (cases v) simp_all
    ultimately show ?thesis using True by (simp add: s deep_equal_by_def)
  next
    case False
    have cells: "list_all (\<lambda>p. fst p < length h \<and> snd p < length (h1 @ map (shift_obj (length h1)) h)
        \<and> same_obj (shift_pairs (length h1) (length h)) (h ! fst p)
             ((h1 @ map (shift_obj (length h1)) h) ! snd p))
        (shift_pairs (length h1) (length h))"
      unfolding list_all_iff
    proof
      fix p assume "p \<in> set (shift_pairs (length h1) (length h))"
      then have "(fst p, snd p) \<in> set (shift_pairs (length h1) (length h))" by simp
      then have "fst p < length h \<and> snd p = length h1 + fst p"
        by (simp only: shift_pairs_mem)
      then obtain a where a: "p = (a, length h1 + a)" "a < length h"
        by (cases p) simp
      from a(2) have "h ! a \<in> set h" by simp
      with assms(2) have "list_all (\<lambda>v. list_all (\<lambda>a. a < length h) (val_refs v)) (obj_vals (h ! a))"
        unfolding closed_heap_def list_all_iff by blast
      from same_obj_shift [OF this, of "length h1"] a
      show "fst p < length h \<and> snd p < length (h1 @ map (shift_obj (length h1)) h)
        \<and> same_obj (shift_pairs (length h1) (length h)) (h ! fst p)
             ((h1 @ map (shift_obj (length h1)) h) ! snd p)"
        by (simp add: nth_append)
    qed
    show ?thesis
      using False cells same_val_shift [OF root, of "length h1"]
      by (simp add: s deep_equal_by_def)
  qed
qed

lemma reachable_primitive: "val_refs v = [] \<Longrightarrow> reachable h v = []"
proof -
  have "(reach_step h ^^ n) [] = []" for n
    by (induction n) (simp_all add: reach_step_def)
  then show "val_refs v = [] \<Longrightarrow> reachable h v = []" by (simp add: reachable_def)
qed

lemma structuredSerialize_primitive:
  "val_refs v = [] \<Longrightarrow> \<not> is_function v \<Longrightarrow> structuredSerialize h v = Some (Snapshot v [])"
  by (simp add: structuredSerialize_def cloneable_def reachable_primitive)

lemma deserialize_new_cells:
  assumes "structuredSerialize h v = Some s"
  shows "list_all (\<lambda>p. length h1 \<le> snd p)
           (if val_refs v = [] then [] else shift_pairs (length h1) (length h))"
  by (simp add: shift_pairs_def list_all_iff)

section \<open>Appending and updating\<close>

lemmas clone_defs =
  structuredSerialize_def cloneable_def reachable_def reach_step_def successors_def

lemmas eval_defs =
  clone_defs compact.simps run_ops_def setItemAsync_def removeItemAsync_def getItemAsync_def sizeAsync_def keyAsync_def
  clearAsync_def initAsync_def checkStorage_def openObjectStore_def idb_open_def request_def
  keys_getKey_def indexes_getKey_def store_get_def cursor_at_def violates_def put_record_def
  store_put_def store_add_def store_delete_def store_clear_def store_count_def commit_def
  settings_instance_def settings_world_def new_IndexedDBInterface_def empty_world_def
  defaultStorageName_def the_store_def wf_store_def store_inv_def Let_def

lemma sizeAsync_live:
  assumes "\<not> isDeleted this" and "the_store this w = Some os" and "faults w = (\<lambda>c. None)"
  shows "sizeAsync this w =
           (Fulfilled (length (records os)), w\<lparr>calls := calls w @ [CallOpen (dbName this), CallCount]\<rparr>)"
  using assms(1,3) by (simp add: sizeAsync_def openObjectStore_ok [OF assms(2,3)] store_count_def)

text \<open>
  C3. On a live store without a record for \<open>k\<close>, \<^verbatim>\<open>setItemAsync(k, v)\<close> is fulfilled and
  the store has exactly one more record, after all others, with key \<open>k\<close>, the clone of
  \<open>v\<close> as value, and as ordinal one more than \<^verbatim>\<open>lastObjectIndex\<close>: the \<open>index\<close> of the
  entry at which the descending cursor over the index \<^verbatim>\<open>'indexes'\<close> opens, or \<open>-1\<close> when
  the cursor is null. That entry carries the greatest ordinal of the store, and the
  cursor is null exactly when the store is empty, where the new ordinal is \<open>0\<close>.
\<close>

theorem set_new_key_appends:
  assumes "\<not> isDeleted this" and "the_store this w = Some os" and "faults w = (\<lambda>c. None)"
    and "wf_store os" and "\<forall>r \<in> set (records os). key (snd r) \<noteq> k"
    and "structuredSerialize (heap w) v = Some s"
  shows "fst (setItemAsync this k v w) = Fulfilled Ok
       \<and> map_option records (the_store this (snd (setItemAsync this k v w))) =
           Some (records os @
             [(keygen os,
               \<lparr>index = (case indexes_last (records os) of
                            Some lastEntry \<Rightarrow> index lastEntry | None \<Rightarrow> - 1) + 1,
                key = k, value = s\<rparr>)])
       \<and> (case indexes_last (records os) of Some lastEntry \<Rightarrow> index lastEntry | None \<Rightarrow> - 1) =
           (if records os = [] then - 1 else Max ((\<lambda>r. index (snd r)) ` set (records os)))"
proof -
  have "(case indexes_last (records os) of Some lastEntry \<Rightarrow> index lastEntry | None \<Rightarrow> - 1)
      = next_index (records os) - 1"
    using lastObjectIndex_next [of "records os"] by simp
  then show ?thesis
    by (simp add: setItemAsync_new [OF assms] next_index_def)
qed

theorem set_new_key_appends_witness:
  "\<not> isDeleted settings_instance
   \<and> the_store settings_instance
        (settings_world [(1, \<lparr>index = 0, key = ''value'', value = Snapshot (JNum 10) []\<rparr>),
                         (2, \<lparr>index = 1, key = ''value2'', value = Snapshot (JNum 20) []\<rparr>)] 3 [])
       = Some \<lparr>records = [(1, \<lparr>index = 0, key = ''value'', value = Snapshot (JNum 10) []\<rparr>),
                           (2, \<lparr>index = 1, key = ''value2'', value = Snapshot (JNum 20) []\<rparr>)], keygen = 3\<rparr>
   \<and> wf_store \<lparr>records = [(1, \<lparr>index = 0, key = ''value'', value = Snapshot (JNum 10) []\<rparr>),
                           (2, \<lparr>index = 1, key = ''value2'', value = Snapshot (JNum 20) []\<rparr>)], keygen = 3\<rparr>
   \<and> structuredSerialize [] (JNum 30) = Some (Snapshot (JNum 30) [])
   \<and> map_option records (the_store settings_instance (snd (setItemAsync settings_instance ''value3'' (JNum 30)
        (settings_world [(1, \<lparr>index = 0, key = ''value'', value = Snapshot (JNum 10) []\<rparr>),
                         (2, \<lparr>index = 1, key = ''value2'', value = Snapshot (JNum 20) []\<rparr>)] 3 []))))
       = Some [(1, \<lparr>index = 0, key = ''value'', value = Snapshot (JNum 10) []\<rparr>),
               (2, \<lparr>index = 1, key = ''value2'', value = Snapshot (JNum 20) []\<rparr>),
               (3, \<lparr>index = 2, key = ''value3'', value = Snapshot (JNum 30) []\<rparr>)]"
proof -
  let ?recs = "[(1, \<lparr>index = 0, key = ''value'', value = Snapshot (JNum 10) []\<rparr>),
                (2, \<lparr>index = 1, key = ''value2'', value = Snapshot (JNum 20) []\<rparr>)]"
  let ?os = "\<lparr>records = ?recs, keygen = 3\<rparr>"
  have h1: "\<not> isDeleted settings_instance" by (simp add: settings_instance_def)
  have h2: "the_store settings_instance (settings_world ?recs 3 []) = Some ?os"
    by (simp add: eval_defs)
  have h3: "faults (settings_world ?recs 3 []) = (\<lambda>c. None)" by (simp add: settings_world_def)
  have h4: "wf_store ?os" by (simp add: wf_store_def)
  have h5: "\<forall>r \<in> set (records ?os). key (snd r) \<noteq> ''value3''" by simp
  have h6: "structuredSerialize (heap (settings_world ?recs 3 [])) (JNum 30) = Some (Snapshot (JNum 30) [])"
    by (simp add: eval_defs)
  from set_new_key_appends [OF h1 h2 h3 h4 h5 h6] h1 h2 h4 h6
  show ?thesis by (simp add: settings_world_def)
qed

lemma replace_exact:
  assumes "distinct (map fst recs)" and "(pk, e) \<in> set recs"
  shows "map (\<lambda>r. if fst r = pk then (pk, e') else r) recs
       = map (\<lambda>r. if r = (pk, e) then (pk, e') else r) recs"
proof (rule map_cong [OF refl])
  fix r assume "r \<in> set recs"
  then have "fst r = pk \<longleftrightarrow> r = (pk, e)"
    using assms by (metis eq_key_imp_eq_value fst_conv prod.collapse)
  then show "(if fst r = pk then (pk, e') else r) = (if r = (pk, e) then (pk, e') else r)" by simp
qed

text \<open>
  C8. On a live store with a record \<open>(pk, e)\<close> for \<open>k\<close>, \<^verbatim>\<open>setItemAsync(k, v)\<close> is
  fulfilled and the store afterwards is the store before with that one record's value
  replaced by the clone of \<open>v\<close>: the record keeps its primary key, its place and its
  ordinal, every other record and the key generator are as before, and \<^verbatim>\<open>sizeAsync\<close>
  answers as before.
\<close>

theorem set_existing_key_updates_in_place:
  assumes "\<not> isDeleted this" and "the_store this w = Some os" and "faults w = (\<lambda>c. None)"
    and "wf_store os" and "(pk, e) \<in> set (records os)" and "key e = k"
    and "structuredSerialize (heap w) v = Some s"
  shows "fst (setItemAsync this k v w) = Fulfilled Ok
       \<and> the_store this (snd (setItemAsync this k v w)) =
           Some (os\<lparr>records :=
                   map (\<lambda>r. if r = (pk, e) then (pk, \<lparr>index = index e, key = k, value = s\<rparr>) else r)
                     (records os)\<rparr>)
       \<and> fst (sizeAsync this (snd (setItemAsync this k v w))) = fst (sizeAsync this w)"
proof -
  note eq = setItemAsync_update [OF assms]
  have e: "e\<lparr>value := s\<rparr> = \<lparr>index = index e, key = k, value = s\<rparr>"
    using assms(6) by simp
  have st: "the_store this (snd (setItemAsync this k v w)) =
      Some (os\<lparr>records := map (\<lambda>r. if fst r = pk then (pk, e\<lparr>value := s\<rparr>) else r) (records os)\<rparr>)"
    by (simp add: eq)
  have fl: "faults (snd (setItemAsync this k v w)) = (\<lambda>c. None)"
    using assms(3) by (simp add: eq)
  have a: "fst (sizeAsync this (snd (setItemAsync this k v w))) = Fulfilled (length (records os))"
    by (simp add: sizeAsync_live [OF assms(1) st fl])
  have b: "fst (sizeAsync this w) = Fulfilled (length (records os))"
    by (simp add: sizeAsync_live [OF assms(1,2,3)])
  have size: "fst (sizeAsync this (snd (setItemAsync this k v w))) = fst (sizeAsync this w)"
    by (simp only: a b)
  have ok: "fst (setItemAsync this k v w) = Fulfilled Ok" by (simp add: eq)
  have "the_store this (snd (setItemAsync this k v w)) =
      Some (os\<lparr>records := map (\<lambda>r. if r = (pk, e) then (pk, e\<lparr>value := s\<rparr>) else r) (records os)\<rparr>)"
    by (simp only: st replace_exact [OF wf_distinct_pks [OF assms(4)] assms(5), of "e\<lparr>value := s\<rparr>"])
  then have "the_store this (snd (setItemAsync this k v w)) =
      Some (os\<lparr>records :=
              map (\<lambda>r. if r = (pk, e) then (pk, \<lparr>index = index e, key = k, value = s\<rparr>) else r)
                (records os)\<rparr>)"
    by (simp only: e)
  with ok size show ?thesis by blast
qed

theorem set_existing_key_updates_in_place_witness:
  "\<not> isDeleted settings_instance
   \<and> the_store settings_instance
        (settings_world [(1, \<lparr>index = 0, key = ''value'', value = Snapshot (JNum 10) []\<rparr>),
                         (2, \<lparr>index = 1, key = ''value2'', value = Snapshot (JNum 20) []\<rparr>)] 3 [])
       = Some \<lparr>records = [(1, \<lparr>index = 0, key = ''value'', value = Snapshot (JNum 10) []\<rparr>),
                           (2, \<lparr>index = 1, key = ''value2'', value = Snapshot (JNum 20) []\<rparr>)], keygen = 3\<rparr>
   \<and> wf_store \<lparr>records = [(1, \<lparr>index = 0, key = ''value'', value = Snapshot (JNum 10) []\<rparr>),
                           (2, \<lparr>index = 1, key = ''value2'', value = Snapshot (JNum 20) []\<rparr>)], keygen = 3\<rparr>
   \<and> structuredSerialize [] JNull = Some (Snapshot JNull [])
   \<and> the_store settings_instance (snd (setItemAsync settings_instance ''value'' JNull
        (settings_world [(1, \<lparr>index = 0, key = ''value'', value = Snapshot (JNum 10) []\<rparr>),
                         (2, \<lparr>index = 1, key = ''value2'', value = Snapshot (JNum 20) []\<rparr>)] 3 [])))
       = Some \<lparr>records = [(1, \<lparr>index = 0, key = ''value'', value = Snapshot JNull []\<rparr>),
                           (2, \<lparr>index = 1, key = ''value2'', value = Snapshot (JNum 20) []\<rparr>)], keygen = 3\<rparr>"
proof -
  let ?recs = "[(1, \<lparr>index = 0, key = ''value'', value = Snapshot (JNum 10) []\<rparr>),
                (2, \<lparr>index = 1, key = ''value2'', value = Snapshot (JNum 20) []\<rparr>)]"
  let ?os = "\<lparr>records = ?recs, keygen = 3\<rparr>"
  have h1: "\<not> isDeleted settings_instance" by (simp add: settings_instance_def)
  have h2: "the_store settings_instance (settings_world ?recs 3 []) = Some ?os"
    by (simp add: eval_defs)
  have h3: "faults (settings_world ?recs 3 []) = (\<lambda>c. None)" by (simp add: settings_world_def)
  have h4: "wf_store ?os" by (simp add: wf_store_def)
  have h5: "(1, \<lparr>index = 0, key = ''value'', value = Snapshot (JNum 10) []\<rparr>) \<in> set (records ?os)" by simp
  have h6: "key \<lparr>index = 0, key = ''value'', value = Snapshot (JNum 10) []\<rparr> = ''value''" by simp
  have h7: "structuredSerialize (heap (settings_world ?recs 3 [])) JNull = Some (Snapshot JNull [])"
    by (simp add: eval_defs)
  from set_existing_key_updates_in_place [OF h1 h2 h3 h4 h5 h6 h7] h1 h2 h4 h7
  show ?thesis by (simp add: settings_world_def)
qed

text \<open>
  C7. With \<^verbatim>\<open>undefined\<close> as the unset sentinel: \<^verbatim>\<open>getItemAsync(k)\<close> is fulfilled with
  \<^verbatim>\<open>undefined\<close> when the live store has no record for \<open>k\<close>, and also right after
  \<^verbatim>\<open>setItemAsync(k, undefined)\<close>; right after \<^verbatim>\<open>setItemAsync(k, null)\<close> it is fulfilled with
  \<^verbatim>\<open>null\<close>. Whatever the overlay holds, the read through the overlay then gives \<^verbatim>\<open>null\<close>
  too, gives the overlay's value (or \<^verbatim>\<open>undefined\<close>) after \<^verbatim>\<open>undefined\<close> was stored, and the
  overlay changes no result other than \<^verbatim>\<open>undefined\<close>.
\<close>

theorem unset_versus_null:
  assumes "\<not> isDeleted this" and "the_store this w = Some os" and "faults w = (\<lambda>c. None)"
    and "wf_store os"
  shows "((\<forall>r \<in> set (records os). key (snd r) \<noteq> k) \<longrightarrow>
            fst (getItemAsync this k w) = Fulfilled JUndefined)
       \<and> fst (getItemAsync this k (snd (setItemAsync this k JUndefined w))) = Fulfilled JUndefined
       \<and> fst (getItemAsync this k (snd (setItemAsync this k JNull w))) = Fulfilled JNull
       \<and> fst (get_with_overlay overlay this k (snd (setItemAsync this k JNull w))) = Fulfilled JNull
       \<and> fst (get_with_overlay overlay this k (snd (setItemAsync this k JUndefined w))) =
           Fulfilled (case overlay k of Some d \<Rightarrow> d | None \<Rightarrow> JUndefined)
       \<and> (consult_overlay overlay k r \<noteq> r \<longrightarrow> r = JUndefined)"
proof -
  have u: "structuredSerialize (heap w) JUndefined = Some (Snapshot JUndefined [])"
    and n: "structuredSerialize (heap w) JNull = Some (Snapshot JNull [])"
    by (simp_all add: structuredSerialize_primitive)
  have fu: "faults (snd (setItemAsync this k JUndefined w)) = (\<lambda>c. None)"
    using set_then_stored [OF assms u, of k] assms(3) by simp
  have fn: "faults (snd (setItemAsync this k JNull w)) = (\<lambda>c. None)"
    using set_then_stored [OF assms n, of k] assms(3) by simp
  have gu: "fst (getItemAsync this k (snd (setItemAsync this k JUndefined w))) = Fulfilled JUndefined"
    using set_then_get(1) [OF assms u refl fu] by simp
  have gn: "fst (getItemAsync this k (snd (setItemAsync this k JNull w))) = Fulfilled JNull"
    using set_then_get(1) [OF assms n refl fn] by simp
  have ou: "fst (get_with_overlay overlay this k (snd (setItemAsync this k JUndefined w))) =
           Fulfilled (case overlay k of Some d \<Rightarrow> d | None \<Rightarrow> JUndefined)"
    using gu by (cases "getItemAsync this k (snd (setItemAsync this k JUndefined w))")
      (simp add: get_with_overlay_def consult_overlay_def)
  have on: "fst (get_with_overlay overlay this k (snd (setItemAsync this k JNull w))) = Fulfilled JNull"
    using gn by (cases "getItemAsync this k (snd (setItemAsync this k JNull w))")
      (simp add: get_with_overlay_def consult_overlay_def)
  have absent: "(\<forall>r \<in> set (records os). key (snd r) \<noteq> k) \<longrightarrow>
            fst (getItemAsync this k w) = Fulfilled JUndefined"
    using getItemAsync_absent [OF assms(1-3), of k] by simp
  have only: "consult_overlay overlay k r \<noteq> r \<longrightarrow> r = JUndefined"
    by (simp add: consult_overlay_def)
  from absent gu gn on ou only show ?thesis by blast
qed


theorem unset_versus_null_witness:
  "\<not> isDeleted settings_instance
   \<and> the_store settings_instance (settings_world [] 1 []) = Some \<lparr>records = [], keygen = 1\<rparr>
   \<and> faults (settings_world [] 1 []) = (\<lambda>c. None)
   \<and> wf_store \<lparr>records = [], keygen = 1\<rparr>
   \<and> consult_overlay [''value'' \<mapsto> JNum 1] ''value'' JUndefined \<noteq> JUndefined
   \<and> fst (getItemAsync settings_instance ''value'' (settings_world [] 1 [])) = Fulfilled JUndefined
   \<and> fst (getItemAsync settings_instance ''value''
         (snd (setItemAsync settings_instance ''value'' JNull (settings_world [] 1 [])))) = Fulfilled JNull
   \<and> fst (get_with_overlay [''value'' \<mapsto> JNum 1] settings_instance ''value''
         (snd (setItemAsync settings_instance ''value'' JNull (settings_world [] 1 [])))) = Fulfilled JNull
   \<and> fst (get_with_overlay [''value'' \<mapsto> JNum 1] settings_instance ''value''
         (snd (setItemAsync settings_instance ''value'' JUndefined (settings_world [] 1 []))))
       = Fulfilled (JNum 1)"
proof -
  have h1: "\<not> isDeleted settings_instance" by (simp add: settings_instance_def)
  have h2: "the_store settings_instance (settings_world [] 1 []) = Some \<lparr>records = [], keygen = 1\<rparr>"
    by (simp add: eval_defs)
  have h3: "faults (settings_world [] 1 []) = (\<lambda>c. None)" by (simp add: settings_world_def)
  have h4: "wf_store \<lparr>records = [], keygen = 1\<rparr>" by (simp add: wf_store_def)
  have h5: "consult_overlay [''value'' \<mapsto> JNum 1] ''value'' JUndefined \<noteq> JUndefined"
    by (simp add: consult_overlay_def)
  from unset_versus_null [OF h1 h2 h3 h4, of "''value''" "[''value'' \<mapsto> JNum 1]" JUndefined]
    h1 h2 h3 h4 h5
  show ?thesis by simp
qed

section \<open>Deep copies\<close>

lemma reads_deep_copy_after_set:
  assumes "\<not> isDeleted this" and "the_store this w = Some os" and "faults w = (\<lambda>c. None)"
    and "wf_store os" and "structuredSerialize (heap w) v = Some s" and "closed_heap (heap w)"
    and "databases w2 = databases (snd (setItemAsync this k v w))" and "faults w2 = (\<lambda>c. None)"
  shows "reads_deep_copy this k w2 (heap w) v"
proof -
  note g = set_then_get [OF assms(1-5,7,8)]
  obtain p w' where pw: "getItemAsync this k w2 = (p, w')" by (cases "getItemAsync this k w2")
  from g(1,2) pw have p: "p = Fulfilled (fst (deserialize (heap w2) s))"
    and h: "heap w' = snd (deserialize (heap w2) s)" by simp_all
  let ?R = "if val_refs v = [] then [] else shift_pairs (length (heap w2)) (length (heap w))"
  have "deep_equal_by ?R (heap w) v (heap w') (fst (deserialize (heap w2) s))"
    unfolding h by (rule deserialize_deep_equal [OF assms(5,6)])
  moreover have "list_all (\<lambda>p. length (heap w2) \<le> snd p) ?R"
    by (rule deserialize_new_cells [OF assms(5)])
  ultimately have "\<exists>R. deep_equal_by R (heap w) v (heap w') (fst (deserialize (heap w2) s))
      \<and> list_all (\<lambda>p. length (heap w2) \<le> snd p) R"
    by blast
  then show ?thesis
    by (simp add: reads_deep_copy_def pw p)
qed

text \<open>
  C4. Let \<open>v\<close> be structured-cloneable in the caller's heap when \<^verbatim>\<open>setItemAsync(k, v)\<close> is
  called on a live store (cycles and shared cells included). Then \<^verbatim>\<open>getItemAsync(k)\<close>
  right afterwards is fulfilled with a deep copy of \<open>v\<close> as it was at the call: deeply
  equal to it, in cells that the read allocated. So is a read after the caller's heap has
  been replaced by any heap \<open>h1\<close> (whatever the caller did to \<open>v\<close> in between), and so is a
  further read after the heap left by that read has been replaced by any heap \<open>h2\<close>
  (whatever the caller did to the object it got).
\<close>

theorem deep_copy_round_trip:
  assumes "\<not> isDeleted this" and "the_store this w = Some os" and "faults w = (\<lambda>c. None)"
    and "wf_store os" and "cloneable (heap w) v" and "closed_heap (heap w)"
  shows "reads_deep_copy this k (snd (setItemAsync this k v w)) (heap w) v
       \<and> reads_deep_copy this k ((snd (setItemAsync this k v w))\<lparr>heap := h1\<rparr>) (heap w) v
       \<and> reads_deep_copy this k
           ((snd (getItemAsync this k ((snd (setItemAsync this k v w))\<lparr>heap := h1\<rparr>)))\<lparr>heap := h2\<rparr>)
           (heap w) v"
proof -
  let ?w1 = "snd (setItemAsync this k v w)"
  let ?s = "Snapshot v (if val_refs v = [] then [] else heap w)"
  have s: "structuredSerialize (heap w) v = Some ?s"
    using assms(5) by (simp add: structuredSerialize_def)
  note pre = assms(1-4) s
  have f1: "faults ?w1 = (\<lambda>c. None)"
    using set_then_stored [OF pre, of k] assms(3) by simp
  have a: "reads_deep_copy this k ?w1 (heap w) v"
    by (rule reads_deep_copy_after_set [OF pre assms(6) refl f1])
  have b: "reads_deep_copy this k (?w1\<lparr>heap := h1\<rparr>) (heap w) v"
    by (rule reads_deep_copy_after_set [OF pre assms(6)]) (simp_all add: f1)
  have d2: "databases (snd (getItemAsync this k (?w1\<lparr>heap := h1\<rparr>))) = databases ?w1"
    and f2: "faults (snd (getItemAsync this k (?w1\<lparr>heap := h1\<rparr>))) = (\<lambda>c. None)"
    using set_then_get(3,4) [OF pre, of "?w1\<lparr>heap := h1\<rparr>" k] f1 by simp_all
  have c: "reads_deep_copy this k ((snd (getItemAsync this k (?w1\<lparr>heap := h1\<rparr>)))\<lparr>heap := h2\<rparr>)
      (heap w) v"
    by (rule reads_deep_copy_after_set [OF pre assms(6)]) (simp_all add: d2 f2)
  from a b c show ?thesis by blast
qed

text \<open>
  The witness follows the test \<^verbatim>\<open>'Async: ref problem (need structuredClone)'\<close>, with a
  cycle added: \<^verbatim>\<open>a = { self: a, c: [40, 42] }\<close> is stored, then \<^verbatim>\<open>a.c = [30]\<close>, then the read.
\<close>

theorem deep_copy_round_trip_witness:
  "\<not> isDeleted settings_instance
   \<and> the_store settings_instance
        (settings_world [] 1 [JObject [(''self'', JRef 0), (''c'', JRef 1)], JArray [JNum 40, JNum 42]])
       = Some \<lparr>records = [], keygen = 1\<rparr>
   \<and> faults (settings_world [] 1
        [JObject [(''self'', JRef 0), (''c'', JRef 1)], JArray [JNum 40, JNum 42]]) = (\<lambda>c. None)
   \<and> wf_store \<lparr>records = [], keygen = 1\<rparr>
   \<and> cloneable [JObject [(''self'', JRef 0), (''c'', JRef 1)], JArray [JNum 40, JNum 42]] (JRef 0)
   \<and> closed_heap [JObject [(''self'', JRef 0), (''c'', JRef 1)], JArray [JNum 40, JNum 42]]
   \<and> reads_deep_copy settings_instance ''value''
        ((snd (setItemAsync settings_instance ''value'' (JRef 0)
           (settings_world [] 1
              [JObject [(''self'', JRef 0), (''c'', JRef 1)], JArray [JNum 40, JNum 42]])))
         \<lparr>heap := [JObject [(''self'', JRef 0), (''c'', JRef 2)], JArray [JNum 40, JNum 42],
                    JArray [JNum 30]]\<rparr>)
        [JObject [(''self'', JRef 0), (''c'', JRef 1)], JArray [JNum 40, JNum 42]] (JRef 0)
   \<and> fst (getItemAsync settings_instance ''value''
        ((snd (setItemAsync settings_instance ''value'' (JRef 0)
           (settings_world [] 1
              [JObject [(''self'', JRef 0), (''c'', JRef 1)], JArray [JNum 40, JNum 42]])))
         \<lparr>heap := [JObject [(''self'', JRef 0), (''c'', JRef 2)], JArray [JNum 40, JNum 42],
                    JArray [JNum 30]]\<rparr>)) = Fulfilled (JRef 3)
   \<and> heap (snd (getItemAsync settings_instance ''value''
        ((snd (setItemAsync settings_instance ''value'' (JRef 0)
           (settings_world [] 1
              [JObject [(''self'', JRef 0), (''c'', JRef 1)], JArray [JNum 40, JNum 42]])))
         \<lparr>heap := [JObject [(''self'', JRef 0), (''c'', JRef 2)], JArray [JNum 40, JNum 42],
                    JArray [JNum 30]]\<rparr>)))
       = [JObject [(''self'', JRef 0), (''c'', JRef 2)], JArray [JNum 40, JNum 42], JArray [JNum 30],
          JObject [(''self'', JRef 3), (''c'', JRef 4)], JArray [JNum 40, JNum 42]]"
proof -
  let ?h = "[JObject [(''self'', JRef 0), (''c'', JRef 1)], JArray [JNum 40, JNum 42]]"
  let ?h1 = "[JObject [(''self'', JRef 0), (''c'', JRef 2)], JArray [JNum 40, JNum 42], JArray [JNum 30]]"
  have h1: "\<not> isDeleted settings_instance" by (simp add: settings_instance_def)
  have h2: "the_store settings_instance (settings_world [] 1 ?h) = Some \<lparr>records = [], keygen = 1\<rparr>"
    by (simp add: eval_defs)
  have h3: "faults (settings_world [] 1 ?h) = (\<lambda>c. None)" by (simp add: settings_world_def)
  have h4: "wf_store \<lparr>records = [], keygen = 1\<rparr>" by (simp add: wf_store_def)
  have h5: "cloneable (heap (settings_world [] 1 ?h)) (JRef 0)"
    by (simp add: settings_world_def clone_defs numeral_2_eq_2)
  have h6: "closed_heap (heap (settings_world [] 1 ?h))"
    by (simp add: settings_world_def closed_heap_def)
  have run: "getItemAsync settings_instance ''value''
      ((snd (setItemAsync settings_instance ''value'' (JRef 0) (settings_world [] 1 ?h)))\<lparr>heap := ?h1\<rparr>)
      = (Fulfilled (JRef 3),
         (snd (setItemAsync settings_instance ''value'' (JRef 0) (settings_world [] 1 ?h)))
           \<lparr>heap := ?h1 @ [JObject [(''self'', JRef 3), (''c'', JRef 4)], JArray [JNum 40, JNum 42]],
             calls := calls (snd (setItemAsync settings_instance ''value'' (JRef 0) (settings_world [] 1 ?h)))
               @ [CallOpen ''settings'', CallKeysGetKey ''value'', CallGet 1]\<rparr>)"
    by (simp add: eval_defs clone_defs numeral_2_eq_2)
  have hw: "heap (settings_world [] 1 ?h) = ?h" by (simp add: settings_world_def)
  from deep_copy_round_trip [OF h1 h2 h3 h4 h5 h6, of "''value''" ?h1]
  have c7: "reads_deep_copy settings_instance ''value''
      ((snd (setItemAsync settings_instance ''value'' (JRef 0) (settings_world [] 1 ?h)))\<lparr>heap := ?h1\<rparr>)
      ?h (JRef 0)"
    unfolding hw by blast
  have c8: "fst (getItemAsync settings_instance ''value''
      ((snd (setItemAsync settings_instance ''value'' (JRef 0) (settings_world [] 1 ?h)))\<lparr>heap := ?h1\<rparr>))
      = Fulfilled (JRef 3)"
    by (simp only: run fst_conv)
  have c9: "heap (snd (getItemAsync settings_instance ''value''
      ((snd (setItemAsync settings_instance ''value'' (JRef 0) (settings_world [] 1 ?h)))\<lparr>heap := ?h1\<rparr>)))
      = [JObject [(''self'', JRef 0), (''c'', JRef 2)], JArray [JNum 40, JNum 42], JArray [JNum 30],
         JObject [(''self'', JRef 3), (''c'', JRef 4)], JArray [JNum 40, JNum 42]]"
    unfolding run by simp
  from h1 h2 h3 h4 h5 [unfolded hw] h6 [unfolded hw] c7 c8 c9
  show ?thesis by blast
qed

section \<open>The scenario of the tests\<close>

text \<open>
  C5. The scenario of the test \<^verbatim>\<open>'Async: delete key + iteration'\<close>, run from the store
  that \<^verbatim>\<open>initAsync\<close> creates in an empty browser: after four insertions the ordinals are
  \<open>0\<close> to \<open>3\<close>; after removing \<^verbatim>\<open>value\<close> and \<^verbatim>\<open>value3\<close> the records left are \<^verbatim>\<open>value2\<close> and
  \<^verbatim>\<open>value4\<close> with ordinals \<open>0\<close> and \<open>1\<close>; after inserting \<^verbatim>\<open>value5\<close>, \<^verbatim>\<open>value\<close>, \<^verbatim>\<open>value6\<close>
  the store lists \<^verbatim>\<open>value2\<close>, \<^verbatim>\<open>value4\<close>, \<^verbatim>\<open>value5\<close>, \<^verbatim>\<open>value\<close>, \<^verbatim>\<open>value6\<close> with ordinals
  \<open>0\<close> to \<open>4\<close>, and \<^verbatim>\<open>keyAsync\<close> answers these keys for the ordinals \<open>0\<close> to \<open>4\<close>.
\<close>

theorem compaction_and_reuse_scenario:
  "initAsync new_IndexedDBInterface (Some ''settings'') None empty_world =
     (Fulfilled Ok, settings_instance, (settings_world [] 1 [])\<lparr>calls := [CallOpen ''settings'']\<rparr>)
   \<and> map_option (\<lambda>os. map (\<lambda>r. (key (snd r), index (snd r))) (records os))
        (the_store settings_instance
          (run_ops settings_instance
            [Set ''value'' (JNum 10), Set ''value2'' (JNum 20), Set ''value3'' (JNum 30),
             Set ''value4'' (JNum 40)]
            ((settings_world [] 1 [])\<lparr>calls := [CallOpen ''settings'']\<rparr>)))
       = Some [(''value'', 0), (''value2'', 1), (''value3'', 2), (''value4'', 3)]
   \<and> map_option (\<lambda>os. map (\<lambda>r. (key (snd r), index (snd r))) (records os))
        (the_store settings_instance
          (run_ops settings_instance
            [Set ''value'' (JNum 10), Set ''value2'' (JNum 20), Set ''value3'' (JNum 30),
             Set ''value4'' (JNum 40), Remove ''value'', Remove ''value3'']
            ((settings_world [] 1 [])\<lparr>calls := [CallOpen ''settings'']\<rparr>)))
       = Some [(''value2'', 0), (''value4'', 1)]
   \<and> map_option (\<lambda>os. map (\<lambda>r. (key (snd r), index (snd r))) (records os))
        (the_store settings_instance
          (run_ops settings_instance
            [Set ''value'' (JNum 10), Set ''value2'' (JNum 20), Set ''value3'' (JNum 30),
             Set ''value4'' (JNum 40), Remove ''value'', Remove ''value3'',
             Set ''value5'' (JNum 50), Set ''value'' (JNum 1), Set ''value6'' (JNum 60)]
            ((settings_world [] 1 [])\<lparr>calls := [CallOpen ''settings'']\<rparr>)))
       = Some [(''value2'', 0), (''value4'', 1), (''value5'', 2), (''value'', 3), (''value6'', 4)]
   \<and> map (\<lambda>i. fst (keyAsync settings_instance i
          (run_ops settings_instance
            [Set ''value'' (JNum 10), Set ''value2'' (JNum 20), Set ''value3'' (JNum 30),
             Set ''value4'' (JNum 40), Remove ''value'', Remove ''value3'',
             Set ''value5'' (JNum 50), Set ''value'' (JNum 1), Set ''value6'' (JNum 60)]
            ((settings_world [] 1 [])\<lparr>calls := [CallOpen ''settings'']\<rparr>)))) [0, 1, 2, 3, 4]
       = [Fulfilled (Some ''value2''), Fulfilled (Some ''value4''), Fulfilled (Some ''value5''),
          Fulfilled (Some ''value''), Fulfilled (Some ''value6'')]"
  by (simp add: eval_defs)

section \<open>Removal and compaction\<close>

lemma decrement_simps [simp]:
  "fst (decrement r) = fst r" "key (snd (decrement r)) = key (snd r)"
  "value (snd (decrement r)) = value (snd r)" "index (snd (decrement r)) = index (snd r) - 1"
  by (simp_all add: decrement_def)

lemma decrement_comp [simp]:
  "fst \<circ> decrement = fst"
  "(\<lambda>r. key (snd r)) \<circ> decrement = (\<lambda>r. key (snd r))"
  by (simp_all add: fun_eq_iff)

lemma store_inv_sorted_index:
  "store_inv os \<Longrightarrow> sorted_wrt (<) (map (\<lambda>r. index (snd r)) (records os))"
  by (simp add: store_inv_def sorted_wrt_map del: upt_Suc)

lemma cursor_at_split:
  assumes "\<forall>r \<in> set pre. fst r < lo" and "lo \<le> fst t"
  shows "cursor_at (pre @ t # ts) lo = Some t"
  using assms by (induction pre) (auto simp: cursor_at_def)

lemma cursor_at_none:
  assumes "\<forall>r \<in> set pre. fst r < lo"
  shows "cursor_at pre lo = None"
  using assms by (induction pre) (auto simp: cursor_at_def)

lemma compact_put:
  assumes recs: "records os = pre @ t # ts"
    and inv: "store_inv (os\<lparr>records := pre @ decrement t # map decrement ts\<rparr>)"
  shows "store_put os (snd (decrement t)) (fst t) = Inr (os\<lparr>records := pre @ decrement t # ts\<rparr>)"
proof -
  let ?T = "pre @ decrement t # map decrement ts"
  from inv have sorted_pk: "sorted_wrt (<) (map fst ?T)"
    and bound: "list_all (\<lambda>r. fst r < keygen os) ?T"
    and keys: "distinct (map (\<lambda>r. key (snd r)) ?T)"
    by (simp_all add: store_inv_def)
  from store_inv_sorted_index [OF inv]
  have sorted_ix: "sorted_wrt (<) (map (\<lambda>r. index (snd r)) ?T)" by simp
  have pk_pre: "\<forall>r \<in> set pre. fst r \<noteq> fst t"
    using sorted_pk by (auto simp: sorted_wrt_append)
  have pk_ts: "\<forall>r \<in> set ts. fst r \<noteq> fst t"
    using sorted_pk by (auto simp: sorted_wrt_append)
  have ix_pre: "\<forall>r \<in> set pre. index (snd r) < index (snd t) - 1"
    using sorted_ix by (auto simp: sorted_wrt_append)
  have ix_ts: "\<forall>r \<in> set ts. index (snd t) - 1 < index (snd r) - 1"
    using sorted_ix by (auto simp: sorted_wrt_append)
  have key_pre: "\<forall>r \<in> set pre. key (snd r) \<noteq> key (snd t)"
    using keys by (simp add: image_iff) metis
  have key_ts: "\<forall>r \<in> set ts. key (snd r) \<noteq> key (snd t)"
    using keys by (simp add: image_iff) metis
  have nv: "\<not> violates (records os) (fst t) (snd (decrement t))"
    using ix_pre ix_ts key_pre key_ts
    by (auto simp: violates_def list_ex_iff recs)
  have "fst t < keygen os" using bound by (simp add: list_all_iff)
  then have kg: "max (keygen os) (Suc (fst t)) = keygen os" by simp
  have mem: "fst t \<in> fst ` set (records os)" by (simp add: recs)
  from sorted_pk have "sorted_wrt (<) (map fst (pre @ (fst t, snd t) # ts))" by simp
  then have dist: "distinct (map fst (pre @ (fst t, snd t) # ts))"
    by (simp only: strict_sorted_iff)
  have "put_record (fst t) (snd (decrement t)) (records os) =
      map (\<lambda>r. if fst r = fst t then (fst t, snd (decrement t)) else r) (pre @ (fst t, snd t) # ts)"
    using put_record_old [OF mem] by (simp add: recs)
  also have "\<dots> = pre @ (fst t, snd (decrement t)) # ts"
    by (rule replace_split [OF dist])
  also have "(fst t, snd (decrement t)) = decrement t"
    by (simp add: decrement_def)
  finally have "put_record (fst t) (snd (decrement t)) (records os) = pre @ decrement t # ts" .
  then show ?thesis using nv kg by (simp add: store_put_def)
qed


lemma compact_unfold:
  assumes "cursor_at (records os) lo = Some t"
    and "store_put os (snd (decrement t)) (fst t) = Inr os'"
  shows "compact os lo w =
           (case faults w (CallPut (snd (decrement t)) (fst t)) of
              Some m \<Rightarrow> (Inl (DOMException m), w\<lparr>calls := calls w @ [CallPut (snd (decrement t)) (fst t)]\<rparr>)
            | None \<Rightarrow>
                (case faults w CallContinue of
                   Some m \<Rightarrow>
                     (Inl (DOMException m),
                      w\<lparr>calls := calls w @ [CallPut (snd (decrement t)) (fst t), CallContinue]\<rparr>)
                 | None \<Rightarrow>
                     compact os' (Suc (fst t))
                       (w\<lparr>calls := calls w @ [CallPut (snd (decrement t)) (fst t), CallContinue]\<rparr>)))"
proof -
  have d: "(snd t)\<lparr>index := index (snd t) - 1\<rparr> = snd (decrement t)"
    by (simp add: decrement_def)
  show ?thesis
    by (subst compact.simps) (simp add: assms d request_def Let_def split: option.splits)
qed

lemma compact_correct:
  assumes "records os = pre @ todo"
    and "store_inv (os\<lparr>records := pre @ map decrement todo\<rparr>)"
    and "\<forall>r \<in> set pre. fst r < lo" and "\<forall>r \<in> set todo. lo \<le> fst r"
  shows "(faults w = (\<lambda>c. None) \<longrightarrow>
            compact os lo w =
              (Inr (os\<lparr>records := pre @ map decrement todo\<rparr>),
               w\<lparr>calls := calls w @
                    concat (map (\<lambda>r. [CallPut (snd (decrement r)) (fst r), CallContinue]) todo)\<rparr>))
       \<and> (\<forall>os2 w'. compact os lo w = (Inr os2, w') \<longrightarrow>
            os2 = os\<lparr>records := pre @ map decrement todo\<rparr>)"
  using assms
proof (induction todo arbitrary: os pre lo w)
  case Nil
  have "cursor_at (records os) lo = None"
    using Nil.prems(1,3) by (simp add: cursor_at_none)
  then have "compact os lo w = (Inr os, w)"
    by (subst compact.simps) simp
  moreover have "os\<lparr>records := pre\<rparr> = os" using Nil.prems(1) by simp
  ultimately show ?case by simp
next
  case (Cons t ts)
  let ?os' = "os\<lparr>records := pre @ decrement t # ts\<rparr>"
  let ?put = "CallPut (snd (decrement t)) (fst t)"
  have cur: "cursor_at (records os) lo = Some t"
    using Cons.prems(1,3,4) by (simp add: cursor_at_split)
  have inv: "store_inv (os\<lparr>records := pre @ decrement t # map decrement ts\<rparr>)"
    using Cons.prems(2) by simp
  have put: "store_put os (snd (decrement t)) (fst t) = Inr ?os'"
    by (rule compact_put [OF Cons.prems(1) inv])
  note unfold = compact_unfold [OF cur put]
  from inv have "sorted_wrt (<) (map fst (pre @ decrement t # map decrement ts))"
    by (simp add: store_inv_def)
  then have below: "\<forall>r \<in> set (pre @ [decrement t]). fst r < Suc (fst t)"
    and above: "\<forall>r \<in> set ts. Suc (fst t) \<le> fst r"
    by (auto simp: sorted_wrt_append less_Suc_eq)
  have recs': "records ?os' = (pre @ [decrement t]) @ ts" by simp
  have inv': "store_inv (?os'\<lparr>records := (pre @ [decrement t]) @ map decrement ts\<rparr>)"
    using inv by simp
  note IH = Cons.IH [OF recs' inv' below above]
  have target: "?os'\<lparr>records := (pre @ [decrement t]) @ map decrement ts\<rparr>
      = os\<lparr>records := pre @ map decrement (t # ts)\<rparr>" by simp
  show ?case
  proof (intro conjI impI allI)
    assume nf: "faults w = (\<lambda>c. None)"
    let ?w2 = "w\<lparr>calls := calls w @ [?put, CallContinue]\<rparr>"
    have "faults ?w2 = (\<lambda>c. None)" using nf by simp
    with IH [of ?w2] have "compact ?os' (Suc (fst t)) ?w2 =
        (Inr (?os'\<lparr>records := (pre @ [decrement t]) @ map decrement ts\<rparr>),
         ?w2\<lparr>calls := calls ?w2 @
               concat (map (\<lambda>r. [CallPut (snd (decrement r)) (fst r), CallContinue]) ts)\<rparr>)"
      by blast
    then show "compact os lo w =
        (Inr (os\<lparr>records := pre @ map decrement (t # ts)\<rparr>),
         w\<lparr>calls := calls w @
              concat (map (\<lambda>r. [CallPut (snd (decrement r)) (fst r), CallContinue]) (t # ts))\<rparr>)"
      using nf by (simp add: unfold)
  next
    fix os2 w'
    assume res: "compact os lo w = (Inr os2, w')"
    let ?w2 = "w\<lparr>calls := calls w @ [?put, CallContinue]\<rparr>"
    from res have "compact ?os' (Suc (fst t)) ?w2 = (Inr os2, w')"
      by (simp add: unfold split: option.splits)
    with IH [of ?w2] have "os2 = ?os'\<lparr>records := (pre @ [decrement t]) @ map decrement ts\<rparr>"
      by blast
    then show "os2 = os\<lparr>records := pre @ map decrement (t # ts)\<rparr>"
      by (simp only: target)
  qed
qed

lemma upt_shift: "map (\<lambda>n. int n - 1) [Suc a..<Suc b] = map int [a..<b]"
proof -
  have "[Suc a..<Suc b] = map Suc [a..<b]" by (simp only: map_Suc_upt)
  then show ?thesis by (simp add: o_def del: upt_Suc)
qed

lemma store_inv_split_index:
  assumes "map (\<lambda>r. index (snd r)) (A @ x # B) = map int [0..<length (A @ x # B)]"
  shows "map (\<lambda>r. index (snd r)) A = map int [0..<length A]"
    and "index (snd x) = int (length A)"
    and "map (\<lambda>r. index (snd r)) B = map int [Suc (length A)..<Suc (length A + length B)]"
proof -
  have 1: "[0..<Suc (length A + length B)] = [0..<length A] @ [length A..<Suc (length A + length B)]"
    using upt_add_eq_append [of 0 "length A" "Suc (length B)"] by (simp del: upt_Suc)
  have 2: "[length A..<Suc (length A + length B)] = length A # [Suc (length A)..<Suc (length A + length B)]"
    by (rule upt_conv_Cons) simp
  have 3: "length (A @ x # B) = Suc (length A + length B)" by simp
  have "[0..<length (A @ x # B)] = [0..<length A] @ length A # [Suc (length A)..<Suc (length A + length B)]"
    unfolding 3 using 1 2 by (simp only:)
  with assms have "map (\<lambda>r. index (snd r)) A @ index (snd x) # map (\<lambda>r. index (snd r)) B
      = map int [0..<length A] @ int (length A) # map int [Suc (length A)..<Suc (length A + length B)]"
    by (simp del: upt_Suc)
  then show "map (\<lambda>r. index (snd r)) A = map int [0..<length A]"
    and "index (snd x) = int (length A)"
    and "map (\<lambda>r. index (snd r)) B = map int [Suc (length A)..<Suc (length A + length B)]"
    by (simp_all del: upt_Suc)
qed

lemma store_inv_records:
  "store_inv (os\<lparr>records := rs\<rparr>) \<longleftrightarrow>
     sorted_wrt (<) (map fst rs) \<and> list_all (\<lambda>r. fst r < keygen os) rs
     \<and> map (\<lambda>r. index (snd r)) rs = map int [0..<length rs]
     \<and> distinct (map (\<lambda>r. key (snd r)) rs)"
  by (simp add: store_inv_def)

lemma list_all_decrement:
  "list_all (\<lambda>r. fst r < n) (map decrement B) = list_all (\<lambda>r. fst r < n) B"
  by (induction B) simp_all

lemma store_inv_removed:
  assumes "store_inv os" and "records os = A @ x # B"
  shows "store_inv (os\<lparr>records := A @ map decrement B\<rparr>)"
proof -
  from assms have ix: "map (\<lambda>r. index (snd r)) (A @ x # B) = map int [0..<length (A @ x # B)]"
    and pks: "sorted_wrt (<) (map fst (A @ x # B))"
    and bound: "list_all (\<lambda>r. fst r < keygen os) (A @ x # B)"
    and keys: "distinct (map (\<lambda>r. key (snd r)) (A @ x # B))"
    by (simp_all add: store_inv_def)
  note parts = store_inv_split_index [OF ix]
  have "map (\<lambda>r. index (snd r)) (map decrement B) = map (\<lambda>i. i - 1) (map (\<lambda>r. index (snd r)) B)"
    by (simp add: o_def)
  also have "\<dots> = map (\<lambda>n. int n - 1) [Suc (length A)..<Suc (length A + length B)]"
    by (simp only: parts(3) map_map o_def)
  also have "\<dots> = map int [length A..<length A + length B]"
    by (rule upt_shift)
  finally have dec: "map (\<lambda>r. index (snd r)) (map decrement B) = map int [length A..<length A + length B]" .
  have "[0..<length A + length B] = [0..<length A] @ [length A..<length A + length B]"
    by (rule upt_add_eq_append) simp
  then have a: "map (\<lambda>r. index (snd r)) (A @ map decrement B) = map int [0..<length (A @ map decrement B)]"
    using parts(1) dec by (simp del: upt_Suc)
  have b: "sorted_wrt (<) (map fst (A @ map decrement B))"
    using pks by (simp add: sorted_wrt_append)
  have c: "list_all (\<lambda>r. fst r < keygen os) (A @ map decrement B)"
    using bound by (simp add: list_all_decrement)
  have d: "distinct (map (\<lambda>r. key (snd r)) (A @ map decrement B))"
    using keys by simp
  from a b c d show ?thesis
    unfolding store_inv_records by blast
qed

lemma store_inv_bounds:
  assumes "store_inv os" and "records os = A @ (pk, e) # B"
  shows "\<forall>r \<in> set A. fst r < pk" and "\<forall>r \<in> set B. pk \<le> fst r"
    and "store_delete os pk = os\<lparr>records := A @ B\<rparr>"
proof -
  from assms have s: "sorted_wrt (<) (map fst (A @ (pk, e) # B))" by (simp add: store_inv_def)
  then show a: "\<forall>r \<in> set A. fst r < pk" and b: "\<forall>r \<in> set B. pk \<le> fst r"
    by (auto simp: sorted_wrt_append)
  from s have "\<forall>r \<in> set B. pk < fst r" by (auto simp: sorted_wrt_append)
  then have "filter (\<lambda>r. fst r \<noteq> pk) B = B" by (auto simp: filter_id_conv)
  moreover have "filter (\<lambda>r. fst r \<noteq> pk) A = A" using a by (auto simp: filter_id_conv)
  ultimately show "store_delete os pk = os\<lparr>records := A @ B\<rparr>"
    by (simp add: store_delete_def assms(2))
qed

lemma removeItemAsync_absent:
  assumes "\<not> isDeleted this" and "the_store this w = Some os" and "faults w = (\<lambda>c. None)"
    and "\<forall>r \<in> set (records os). key (snd r) \<noteq> k"
  shows "removeItemAsync this k w =
           (Fulfilled Ok, w\<lparr>calls := calls w @ [CallOpen (dbName this), CallKeysGetKey k]\<rparr>)"
proof -
  have none: "keys_getKey (records os) k = None"
    using assms(4) by (simp add: keys_getKey_None)
  show ?thesis
    using assms(1,3) none
    by (simp add: removeItemAsync_def openObjectStore_ok [OF assms(2,3)])
qed

lemma removeItemAsync_present:
  assumes "\<not> isDeleted this" and "the_store this w = Some os" and "faults w = (\<lambda>c. None)"
    and "store_inv os" and "records os = A @ (pk, e) # B" and "key e = k"
  shows "removeItemAsync this k w =
           (Fulfilled Ok,
            commit this (os\<lparr>records := A @ map decrement B\<rparr>)
              (w\<lparr>calls := calls w @
                    [CallOpen (dbName this), CallKeysGetKey k, CallDelete pk, CallOpenCursor pk] @
                    concat (map (\<lambda>r. [CallPut (snd (decrement r)) (fst r), CallContinue]) B)\<rparr>))"
proof -
  have mem: "(pk, e) \<in> set (records os)" by (simp add: assms(5))
  have some: "keys_getKey (records os) k = Some pk"
    using keys_getKey_wf [OF store_inv_wf [OF assms(4)] mem] assms(6) by simp
  note b = store_inv_bounds [OF assms(4,5)]
  let ?os1 = "os\<lparr>records := A @ B\<rparr>"
  let ?w4 = "w\<lparr>calls := calls w @
      [CallOpen (dbName this), CallKeysGetKey k, CallDelete pk, CallOpenCursor pk]\<rparr>"
  have inv1: "store_inv (?os1\<lparr>records := A @ map decrement B\<rparr>)"
    using store_inv_removed [OF assms(4,5)] by simp
  have "records ?os1 = A @ B" by simp
  from compact_correct [OF this inv1 b(1,2), of ?w4, THEN conjunct1] assms(3)
  have "compact ?os1 pk ?w4 =
      (Inr (os\<lparr>records := A @ map decrement B\<rparr>),
       ?w4\<lparr>calls := calls ?w4 @
             concat (map (\<lambda>r. [CallPut (snd (decrement r)) (fst r), CallContinue]) B)\<rparr>)"
    by simp
  then show ?thesis
    using assms(1,3) some b(3)
    by (simp add: removeItemAsync_def openObjectStore_ok [OF assms(2,3)])
qed

lemma filter_map_distinct:
  assumes "distinct (map f (A @ x # B))"
  shows "filter (\<lambda>y. y \<noteq> f x) (map f (A @ x # B)) = map f A @ map f B"
proof -
  from assms have "f x \<notin> f ` set A" and "f x \<notin> f ` set B" by auto
  then have "\<forall>r \<in> set A. f r \<noteq> f x" and "\<forall>r \<in> set B. f r \<noteq> f x"
    by (metis imageI)+
  then have "filter (\<lambda>y. y \<noteq> f x) (map f A) = map f A"
    and "filter (\<lambda>y. y \<noteq> f x) (map f B) = map f B"
    by (simp_all add: filter_id_conv)
  then show ?thesis by simp
qed

lemma removed_forms:
  assumes "store_inv os" and "records os = A @ (pk, e) # B"
  shows "filter (\<lambda>r. r \<noteq> (pk, e)) (records os) = A @ B"
    and "map (\<lambda>r. if index e < index (snd r) then decrement r else r) (A @ B) = A @ map decrement B"
    and "filter (\<lambda>r. index e < index (snd r)) (records os) = B"
    and "map (\<lambda>r. index (snd r)) B = map int [Suc (nat (index e))..<length (records os)]"
    and "map (\<lambda>r. key (snd r)) (A @ map decrement B)
           = filter (\<lambda>x. x \<noteq> key e) (map (\<lambda>r. key (snd r)) (records os))"
proof -
  from assms have ix: "map (\<lambda>r. index (snd r)) (A @ (pk, e) # B) = map int [0..<length (A @ (pk, e) # B)]"
    and keys: "distinct (map (\<lambda>r. key (snd r)) (A @ (pk, e) # B))"
    by (simp_all add: store_inv_def)
  from store_inv_sorted_index [OF assms(1)] assms(2)
  have "sorted_wrt (<) (map (\<lambda>r. index (snd r)) (A @ (pk, e) # B))" by simp
  then have lo: "\<forall>r \<in> set A. index (snd r) < index e" and hi: "\<forall>r \<in> set B. index e < index (snd r)"
    by (auto simp: sorted_wrt_append)
  have nA: "\<forall>r \<in> set A. r \<noteq> (pk, e)" using lo by auto
  have nB: "\<forall>r \<in> set B. r \<noteq> (pk, e)" using hi by auto
  show "filter (\<lambda>r. r \<noteq> (pk, e)) (records os) = A @ B"
    using nA nB by (simp add: assms(2) filter_id_conv)
  have "map (\<lambda>r. if index e < index (snd r) then decrement r else r) A = A"
    using lo by (intro map_idI) auto
  moreover have "map (\<lambda>r. if index e < index (snd r) then decrement r else r) B = map decrement B"
    using hi by simp
  ultimately show "map (\<lambda>r. if index e < index (snd r) then decrement r else r) (A @ B) = A @ map decrement B"
    by simp
  have "filter (\<lambda>r. index e < index (snd r)) A = []"
    using lo by (auto simp: filter_empty_conv)
  moreover have "filter (\<lambda>r. index e < index (snd r)) B = B"
    using hi by (simp add: filter_id_conv)
  ultimately show "filter (\<lambda>r. index e < index (snd r)) (records os) = B"
    by (simp add: assms(2))
  note parts = store_inv_split_index [OF ix]
  from parts(2) have "nat (index e) = length A" by simp
  then show "map (\<lambda>r. index (snd r)) B = map int [Suc (nat (index e))..<length (records os)]"
    using parts(3) by (simp add: assms(2) del: upt_Suc)
  from filter_map_distinct [OF keys]
  show "map (\<lambda>r. key (snd r)) (A @ map decrement B)
           = filter (\<lambda>x. x \<noteq> key e) (map (\<lambda>r. key (snd r)) (records os))"
    by (simp add: assms(2))
qed

text \<open>
  C2. On a live store that satisfies the invariant: if no record has key \<open>k\<close>,
  \<^verbatim>\<open>removeItemAsync(k)\<close> is fulfilled and the databases are as before. If \<open>(pk, e)\<close> is the
  record for \<open>k\<close>, it is fulfilled and the store afterwards holds the records before
  without \<open>(pk, e)\<close>, in their order, where exactly the records with an ordinal above
  that of \<open>e\<close> have their ordinal lowered by one; the invariant holds again and the keys in
  ordinal order are the keys before without \<open>k\<close>. The requests sent are the open, the
  key lookup, the delete, the cursor, and then one \<^verbatim>\<open>put\<close> and one \<^verbatim>\<open>continue\<close> for each
  record with an ordinal above that of \<open>e\<close>, and these records are visited with the
  ordinals \<open>index e + 1\<close>, \<open>index e + 2\<close>, \<open>\<dots>\<close> in this order.
\<close>

theorem remove_semantics:
  assumes "\<not> isDeleted this" and "the_store this w = Some os" and "faults w = (\<lambda>c. None)"
    and "store_inv os"
  shows "((\<forall>r \<in> set (records os). key (snd r) \<noteq> k) \<longrightarrow>
            fst (removeItemAsync this k w) = Fulfilled Ok
            \<and> databases (snd (removeItemAsync this k w)) = databases w)
       \<and> ((pk, e) \<in> set (records os) \<and> key e = k \<longrightarrow>
            fst (removeItemAsync this k w) = Fulfilled Ok
            \<and> the_store this (snd (removeItemAsync this k w)) =
                Some (os\<lparr>records :=
                        map (\<lambda>r. if index e < index (snd r) then decrement r else r)
                          (filter (\<lambda>r. r \<noteq> (pk, e)) (records os))\<rparr>)
            \<and> store_inv (os\<lparr>records :=
                        map (\<lambda>r. if index e < index (snd r) then decrement r else r)
                          (filter (\<lambda>r. r \<noteq> (pk, e)) (records os))\<rparr>)
            \<and> map (\<lambda>r. key (snd r))
                  (map (\<lambda>r. if index e < index (snd r) then decrement r else r)
                     (filter (\<lambda>r. r \<noteq> (pk, e)) (records os)))
                = filter (\<lambda>x. x \<noteq> k) (map (\<lambda>r. key (snd r)) (records os))
            \<and> calls (snd (removeItemAsync this k w)) =
                calls w @
                [CallOpen (dbName this), CallKeysGetKey k, CallDelete pk, CallOpenCursor pk] @
                concat (map (\<lambda>r. [CallPut (snd (decrement r)) (fst r), CallContinue])
                          (filter (\<lambda>r. index e < index (snd r)) (records os)))
            \<and> map (\<lambda>r. index (snd r)) (filter (\<lambda>r. index e < index (snd r)) (records os))
                = map int [Suc (nat (index e))..<length (records os)])"
proof (intro conjI impI)
  assume absent: "\<forall>r \<in> set (records os). key (snd r) \<noteq> k"
  note eq = removeItemAsync_absent [OF assms(1-3) absent]
  show "fst (removeItemAsync this k w) = Fulfilled Ok" by (simp add: eq)
  show "databases (snd (removeItemAsync this k w)) = databases w" by (simp add: eq)
next
  assume present: "(pk, e) \<in> set (records os) \<and> key e = k"
  then obtain A B where split: "records os = A @ (pk, e) # B"
    by (auto simp: in_set_conv_decomp)
  from present have k: "key e = k" by simp
  note eq = removeItemAsync_present [OF assms split k]
  note forms = removed_forms [OF assms(4) split]
  have target: "map (\<lambda>r. if index e < index (snd r) then decrement r else r)
      (filter (\<lambda>r. r \<noteq> (pk, e)) (records os)) = A @ map decrement B"
    by (simp only: forms(1,2))
  show "fst (removeItemAsync this k w) = Fulfilled Ok" by (simp add: eq)
  show "the_store this (snd (removeItemAsync this k w)) =
      Some (os\<lparr>records := map (\<lambda>r. if index e < index (snd r) then decrement r else r)
                              (filter (\<lambda>r. r \<noteq> (pk, e)) (records os))\<rparr>)"
    unfolding target by (simp add: eq)
  show "store_inv (os\<lparr>records := map (\<lambda>r. if index e < index (snd r) then decrement r else r)
                              (filter (\<lambda>r. r \<noteq> (pk, e)) (records os))\<rparr>)"
    unfolding target by (rule store_inv_removed [OF assms(4) split])
  show "map (\<lambda>r. key (snd r))
          (map (\<lambda>r. if index e < index (snd r) then decrement r else r)
             (filter (\<lambda>r. r \<noteq> (pk, e)) (records os)))
        = filter (\<lambda>x. x \<noteq> k) (map (\<lambda>r. key (snd r)) (records os))"
    unfolding target using forms(5) k by simp
  show "calls (snd (removeItemAsync this k w)) =
      calls w @ [CallOpen (dbName this), CallKeysGetKey k, CallDelete pk, CallOpenCursor pk] @
      concat (map (\<lambda>r. [CallPut (snd (decrement r)) (fst r), CallContinue])
                (filter (\<lambda>r. index e < index (snd r)) (records os)))"
    unfolding forms(3) by (simp add: eq)
  show "map (\<lambda>r. index (snd r)) (filter (\<lambda>r. index e < index (snd r)) (records os))
      = map int [Suc (nat (index e))..<length (records os)]"
    unfolding forms(3) by (rule forms(4))
qed

theorem remove_semantics_witness:
  "\<not> isDeleted settings_instance
   \<and> the_store settings_instance
        (settings_world [(1, \<lparr>index = 0, key = ''value'', value = Snapshot (JNum 10) []\<rparr>),
                         (2, \<lparr>index = 1, key = ''value2'', value = Snapshot (JNum 20) []\<rparr>),
                         (3, \<lparr>index = 2, key = ''value3'', value = Snapshot (JNum 30) []\<rparr>),
                         (4, \<lparr>index = 3, key = ''value4'', value = Snapshot (JNum 40) []\<rparr>)] 5 [])
       = Some \<lparr>records = [(1, \<lparr>index = 0, key = ''value'', value = Snapshot (JNum 10) []\<rparr>),
                           (2, \<lparr>index = 1, key = ''value2'', value = Snapshot (JNum 20) []\<rparr>),
                           (3, \<lparr>index = 2, key = ''value3'', value = Snapshot (JNum 30) []\<rparr>),
                           (4, \<lparr>index = 3, key = ''value4'', value = Snapshot (JNum 40) []\<rparr>)], keygen = 5\<rparr>
   \<and> store_inv \<lparr>records = [(1, \<lparr>index = 0, key = ''value'', value = Snapshot (JNum 10) []\<rparr>),
                           (2, \<lparr>index = 1, key = ''value2'', value = Snapshot (JNum 20) []\<rparr>),
                           (3, \<lparr>index = 2, key = ''value3'', value = Snapshot (JNum 30) []\<rparr>),
                           (4, \<lparr>index = 3, key = ''value4'', value = Snapshot (JNum 40) []\<rparr>)], keygen = 5\<rparr>
   \<and> the_store settings_instance (snd (removeItemAsync settings_instance ''value2''
        (settings_world [(1, \<lparr>index = 0, key = ''value'', value = Snapshot (JNum 10) []\<rparr>),
                         (2, \<lparr>index = 1, key = ''value2'', value = Snapshot (JNum 20) []\<rparr>),
                         (3, \<lparr>index = 2, key = ''value3'', value = Snapshot (JNum 30) []\<rparr>),
                         (4, \<lparr>index = 3, key = ''value4'', value = Snapshot (JNum 40) []\<rparr>)] 5 [])))
       = Some \<lparr>records = [(1, \<lparr>index = 0, key = ''value'', value = Snapshot (JNum 10) []\<rparr>),
                           (3, \<lparr>index = 1, key = ''value3'', value = Snapshot (JNum 30) []\<rparr>),
                           (4, \<lparr>index = 2, key = ''value4'', value = Snapshot (JNum 40) []\<rparr>)], keygen = 5\<rparr>
   \<and> calls (snd (removeItemAsync settings_instance ''value2''
        (settings_world [(1, \<lparr>index = 0, key = ''value'', value = Snapshot (JNum 10) []\<rparr>),
                         (2, \<lparr>index = 1, key = ''value2'', value = Snapshot (JNum 20) []\<rparr>),
                         (3, \<lparr>index = 2, key = ''value3'', value = Snapshot (JNum 30) []\<rparr>),
                         (4, \<lparr>index = 3, key = ''value4'', value = Snapshot (JNum 40) []\<rparr>)] 5 [])))
       = [CallOpen ''settings'', CallKeysGetKey ''value2'', CallDelete 2, CallOpenCursor 2,
          CallPut \<lparr>index = 1, key = ''value3'', value = Snapshot (JNum 30) []\<rparr> 3, CallContinue,
          CallPut \<lparr>index = 2, key = ''value4'', value = Snapshot (JNum 40) []\<rparr> 4, CallContinue]
   \<and> fst (removeItemAsync settings_instance ''value5''
        (settings_world [(1, \<lparr>index = 0, key = ''value'', value = Snapshot (JNum 10) []\<rparr>),
                         (2, \<lparr>index = 1, key = ''value2'', value = Snapshot (JNum 20) []\<rparr>),
                         (3, \<lparr>index = 2, key = ''value3'', value = Snapshot (JNum 30) []\<rparr>),
                         (4, \<lparr>index = 3, key = ''value4'', value = Snapshot (JNum 40) []\<rparr>)] 5 [])) = Fulfilled Ok"
proof -
  let ?recs = "[(1, \<lparr>index = 0, key = ''value'', value = Snapshot (JNum 10) []\<rparr>),
                (2, \<lparr>index = 1, key = ''value2'', value = Snapshot (JNum 20) []\<rparr>),
                (3, \<lparr>index = 2, key = ''value3'', value = Snapshot (JNum 30) []\<rparr>),
                (4, \<lparr>index = 3, key = ''value4'', value = Snapshot (JNum 40) []\<rparr>)]"
  let ?os = "\<lparr>records = ?recs, keygen = 5\<rparr>"
  have h1: "\<not> isDeleted settings_instance" by (simp add: settings_instance_def)
  have h2: "the_store settings_instance (settings_world ?recs 5 []) = Some ?os"
    by (simp add: eval_defs)
  have h3: "faults (settings_world ?recs 5 []) = (\<lambda>c. None)" by (simp add: settings_world_def)
  have h4: "store_inv ?os" by (simp add: store_inv_def upt_rec)
  have h5: "(2, \<lparr>index = 1, key = ''value2'', value = Snapshot (JNum 20) []\<rparr>) \<in> set (records ?os)
      \<and> key \<lparr>index = 1, key = ''value2'', value = Snapshot (JNum 20) []\<rparr> = ''value2''" by simp
  have h6: "\<forall>r \<in> set (records ?os). key (snd r) \<noteq> ''value5''" by simp
  from remove_semantics [OF h1 h2 h3 h4, of "''value2''" 2 "\<lparr>index = 1, key = ''value2'', value = Snapshot (JNum 20) []\<rparr>"]
    remove_semantics [OF h1 h2 h3 h4, of "''value5''" 0 "\<lparr>index = 0, key = [], value = Snapshot JNull []\<rparr>"]
    h1 h2 h4 h5 h6
  show ?thesis by (simp add: settings_world_def settings_instance_def decrement_def)
qed


section \<open>The invariant over sequences of operations\<close>

lemma compact_the_store:
  "the_store this (snd (compact os lo w)) = the_store this w"
proof (induction os lo w rule: compact.induct)
  case (1 os lo w)
  show ?case
  proof (cases "cursor_at (records os) lo")
    case None
    then show ?thesis by (subst compact.simps) simp
  next
    case (Some cursor)
    let ?e = "(snd cursor)\<lparr>index := index (snd cursor) - 1\<rparr>"
    obtain r1 w1 where r1: "request (CallPut ?e (fst cursor)) (store_put os ?e (fst cursor)) w = (r1, w1)"
      by (cases "request (CallPut ?e (fst cursor)) (store_put os ?e (fst cursor)) w")
    have w1: "the_store this w1 = the_store this w"
      using request_cases(1) [OF r1] by simp
    show ?thesis
    proof (cases r1)
      case (Inl e)
      then show ?thesis using Some r1 w1 by (subst compact.simps) (simp add: Let_def)
    next
      case (Inr os')
      obtain r2 w2 where r2: "request CallContinue (Inr ()) w1 = (r2, w2)"
        by (cases "request CallContinue (Inr () :: error + unit) w1")
      have w2: "the_store this w2 = the_store this w"
        using request_cases(1) [OF r2] w1 by simp
      show ?thesis
      proof (cases r2)
        case (Inl e)
        then show ?thesis using Some r1 Inr r2 w2 by (subst compact.simps) (simp add: Let_def)
      next
        case (Inr u)
        from "1.IH" [OF Some refl refl r1 [symmetric] \<open>r1 = Inr os'\<close> r2 [symmetric] Inr]
        have "the_store this (snd (compact os' (Suc (fst cursor)) w2)) = the_store this w2" .
        then show ?thesis
          using Some r1 \<open>r1 = Inr os'\<close> r2 Inr w2 by (subst compact.simps) (simp add: Let_def)
      qed
    qed
  qed
qed

lemma next_index_inv:
  assumes "store_inv os"
  shows "next_index (records os) = int (length (records os))"
proof (cases "records os = []")
  case True
  then show ?thesis by (simp add: next_index_def)
next
  case False
  from assms have "(\<lambda>r. index (snd r)) ` set (records os) = int ` {0..<length (records os)}"
    by (metis store_inv_def set_map atLeastLessThan_upt)
  moreover have "Max (int ` {0..<length (records os)}) = int (length (records os) - 1)"
    using False by (intro Max_eqI) auto
  moreover have "int (length (records os) - 1) + 1 = int (length (records os))"
    using False by (cases "records os") simp_all
  ultimately show ?thesis using False by (simp add: next_index_def)
qed

lemma store_inv_append:
  assumes "store_inv os" and "\<forall>r \<in> set (records os). key (snd r) \<noteq> k"
  shows "store_inv (os\<lparr>records := records os @
            [(keygen os, \<lparr>index = next_index (records os), key = k, value = s\<rparr>)],
          keygen := Suc (keygen os)\<rparr>)"
  using assms next_index_inv [OF assms(1)]
  by (auto simp: store_inv_def sorted_wrt_append list_all_iff less_Suc_eq)

lemma store_inv_update:
  assumes "store_inv os" and "(pk, e) \<in> set (records os)"
  shows "store_inv (os\<lparr>records := map (\<lambda>r. if fst r = pk then (pk, e\<lparr>value := s\<rparr>) else r) (records os)\<rparr>)"
proof -
  from assms(2) obtain A B where split: "records os = A @ (pk, e) # B"
    by (auto simp: in_set_conv_decomp)
  have "distinct (map fst (A @ (pk, e) # B))"
    using wf_distinct_pks [OF store_inv_wf [OF assms(1)]] split by simp
  from replace_split [OF this, of "e\<lparr>value := s\<rparr>"] show ?thesis
    using assms(1) split by (simp add: store_inv_def)
qed

text \<open>Whatever the Engine does, a call leaves the store as it was or as the call without failures leaves it.\<close>

lemma setItemAsync_store:
  assumes "the_store this w = Some os" and "store_inv os"
  shows "the_store this (snd (setItemAsync this k v w)) = Some os
       \<or> (\<exists>s. (\<forall>r \<in> set (records os). key (snd r) \<noteq> k)
             \<and> the_store this (snd (setItemAsync this k v w)) =
                 Some (os\<lparr>records := records os @
                         [(keygen os, \<lparr>index = next_index (records os), key = k, value = s\<rparr>)],
                       keygen := Suc (keygen os)\<rparr>))
       \<or> (\<exists>s pk e. (pk, e) \<in> set (records os)
             \<and> the_store this (snd (setItemAsync this k v w)) =
                 Some (os\<lparr>records := map (\<lambda>r. if fst r = pk then (pk, e\<lparr>value := s\<rparr>) else r) (records os)\<rparr>))"
proof -
  note wf = store_inv_wf [OF assms(2)]
  note defs = setItemAsync_def openObjectStore_live [OF assms(1)] request_def checkStorage_def Let_def
  let ?same = "the_store this (snd (setItemAsync this k v w)) = Some os"
  consider (deleted) "isDeleted this"
    | (open_fails) m where "\<not> isDeleted this" "faults w (CallOpen (dbName this)) = Some m"
    | (lookup_fails) m where "\<not> isDeleted this" "faults w (CallOpen (dbName this)) = None"
        "faults w (CallKeysGetKey k) = Some m"
    | (new) "\<not> isDeleted this" "faults w (CallOpen (dbName this)) = None"
        "faults w (CallKeysGetKey k) = None" "\<forall>r \<in> set (records os). key (snd r) \<noteq> k"
    | (old) pk e where "\<not> isDeleted this" "faults w (CallOpen (dbName this)) = None"
        "faults w (CallKeysGetKey k) = None" "(pk, e) \<in> set (records os)" "key e = k"
    using key_present_or_absent [of "records os" k]
    by (cases "faults w (CallOpen (dbName this))"; cases "faults w (CallKeysGetKey k)") blast+
  then show ?thesis
  proof cases
    case deleted
    then have ?same using assms(1) by (simp add: defs)
    then show ?thesis by blast
  next
    case open_fails
    then have ?same using assms(1) by (simp add: defs)
    then show ?thesis by blast
  next
    case lookup_fails
    then have ?same using assms(1) by (simp add: defs)
    then show ?thesis by blast
  next
    case new
    have none: "keys_getKey (records os) k = None"
      using new(4) by (simp add: keys_getKey_None)
    have fresh: "\<forall>r \<in> set (records os). index (snd r) \<noteq> next_index (records os)"
      using next_index_fresh [of _ "records os"] by fastforce
    show ?thesis
    proof (cases "faults w CallOpenCursorPrev")
      case (Some m)
      then have ?same using assms(1) new(1-3) none by (simp add: defs)
      then show ?thesis by blast
    next
      case None
      show ?thesis
      proof (cases "structuredSerialize (heap w) v")
        case no: None
        then have ?same using assms(1) new(1-3) none None by (simp add: defs)
        then show ?thesis by blast
      next
        case (Some s)
        let ?e = "\<lparr>index = next_index (records os), key = k, value = s\<rparr>"
        have add: "store_add os ?e =
            Inr (os\<lparr>records := records os @ [(keygen os, ?e)], keygen := Suc (keygen os)\<rparr>)"
          using wf new(4) fresh by (intro store_add_wf) simp_all
        show ?thesis
        proof (cases "faults w (CallAdd ?e)")
          case f: (Some m)
          then have ?same using assms(1) new(1-3) none None Some
            by (simp add: defs lastObjectIndex_next)
          then show ?thesis by blast
        next
          case f: None
          then have "the_store this (snd (setItemAsync this k v w)) =
              Some (os\<lparr>records := records os @ [(keygen os, ?e)], keygen := Suc (keygen os)\<rparr>)"
            using assms(1) new(1-3) none None Some add
            by (simp add: defs lastObjectIndex_next)
          then show ?thesis using new(4) by blast
        qed
      qed
    qed
  next
    case old
    have some: "keys_getKey (records os) k = Some pk"
      using keys_getKey_wf [OF wf old(4)] old(5) by simp
    have get: "store_get (records os) pk = Some e"
      by (rule store_get_wf [OF wf old(4)])
    show ?thesis
    proof (cases "faults w (CallGet pk)")
      case (Some m)
      then have ?same using assms(1) old(1-3) some by (simp add: defs)
      then show ?thesis by blast
    next
      case None
      show ?thesis
      proof (cases "structuredSerialize (heap w) v")
        case no: None
        then have ?same using assms(1) old(1-3) some get None by (simp add: defs)
        then show ?thesis by blast
      next
        case (Some s)
        have put: "store_put os (e\<lparr>value := s\<rparr>) pk =
            Inr (os\<lparr>records := map (\<lambda>r. if fst r = pk then (pk, e\<lparr>value := s\<rparr>) else r) (records os)\<rparr>)"
          by (rule store_put_wf [OF wf old(4)]) simp_all
        show ?thesis
        proof (cases "faults w (CallPut (e\<lparr>value := s\<rparr>) pk)")
          case f: (Some m)
          then have ?same using assms(1) old(1-3) some get None Some by (simp add: defs)
          then show ?thesis by blast
        next
          case f: None
          then have "the_store this (snd (setItemAsync this k v w)) =
              Some (os\<lparr>records := map (\<lambda>r. if fst r = pk then (pk, e\<lparr>value := s\<rparr>) else r) (records os)\<rparr>)"
            using assms(1) old(1-3) some get None Some put by (simp add: defs)
          then show ?thesis using old(4) by blast
        qed
      qed
    qed
  qed
qed

lemma setItemAsync_inv:
  assumes "the_store this w = Some os" and "store_inv os"
  shows "\<exists>os'. the_store this (snd (setItemAsync this k v w)) = Some os' \<and> store_inv os'"
proof -
  from setItemAsync_store [OF assms, of k v]
  consider "the_store this (snd (setItemAsync this k v w)) = Some os"
    | s where "\<forall>r \<in> set (records os). key (snd r) \<noteq> k"
        "the_store this (snd (setItemAsync this k v w)) =
           Some (os\<lparr>records := records os @
                   [(keygen os, \<lparr>index = next_index (records os), key = k, value = s\<rparr>)],
                 keygen := Suc (keygen os)\<rparr>)"
    | s pk e where "(pk, e) \<in> set (records os)"
        "the_store this (snd (setItemAsync this k v w)) =
           Some (os\<lparr>records := map (\<lambda>r. if fst r = pk then (pk, e\<lparr>value := s\<rparr>) else r) (records os)\<rparr>)"
    by blast
  then show ?thesis
  proof cases
    case 1
    then show ?thesis using assms(2) by blast
  next
    case 2
    then show ?thesis using store_inv_append [OF assms(2) 2(1)] by blast
  next
    case 3
    then show ?thesis using store_inv_update [OF assms(2) 3(1)] by blast
  qed
qed

lemma removeItemAsync_store:
  assumes "the_store this w = Some os" and "store_inv os"
  shows "the_store this (snd (removeItemAsync this k w)) = Some os
       \<or> (\<exists>A pk e B. records os = A @ (pk, e) # B
             \<and> the_store this (snd (removeItemAsync this k w)) =
                 Some (os\<lparr>records := A @ map decrement B\<rparr>))"
proof -
  note wf = store_inv_wf [OF assms(2)]
  note defs = removeItemAsync_def openObjectStore_live [OF assms(1)] request_def checkStorage_def Let_def
  let ?same = "the_store this (snd (removeItemAsync this k w)) = Some os"
  consider (deleted) "isDeleted this"
    | (open_fails) m where "\<not> isDeleted this" "faults w (CallOpen (dbName this)) = Some m"
    | (lookup_fails) m where "\<not> isDeleted this" "faults w (CallOpen (dbName this)) = None"
        "faults w (CallKeysGetKey k) = Some m"
    | (absent) "\<not> isDeleted this" "faults w (CallOpen (dbName this)) = None"
        "faults w (CallKeysGetKey k) = None" "\<forall>r \<in> set (records os). key (snd r) \<noteq> k"
    | (present) pk e where "\<not> isDeleted this" "faults w (CallOpen (dbName this)) = None"
        "faults w (CallKeysGetKey k) = None" "(pk, e) \<in> set (records os)" "key e = k"
    using key_present_or_absent [of "records os" k]
    by (cases "faults w (CallOpen (dbName this))"; cases "faults w (CallKeysGetKey k)") blast+
  then show ?thesis
  proof cases
    case deleted
    then have ?same using assms(1) by (simp add: defs)
    then show ?thesis by blast
  next
    case open_fails
    then have ?same using assms(1) by (simp add: defs)
    then show ?thesis by blast
  next
    case lookup_fails
    then have ?same using assms(1) by (simp add: defs)
    then show ?thesis by blast
  next
    case absent
    have none: "keys_getKey (records os) k = None"
      using absent(4) by (simp add: keys_getKey_None)
    have ?same using assms(1) absent(1-3) none by (simp add: defs)
    then show ?thesis by blast
  next
    case present
    from present(4) obtain A B where split: "records os = A @ (pk, e) # B"
      by (auto simp: in_set_conv_decomp)
    have some: "keys_getKey (records os) k = Some pk"
      using keys_getKey_wf [OF wf present(4)] present(5) by simp
    note b = store_inv_bounds [OF assms(2) split]
    let ?os1 = "os\<lparr>records := A @ B\<rparr>"
    let ?w4 = "w\<lparr>calls := calls w @
        [CallOpen (dbName this), CallKeysGetKey k, CallDelete pk, CallOpenCursor pk]\<rparr>"
    have inv1: "store_inv (?os1\<lparr>records := A @ map decrement B\<rparr>)"
      using store_inv_removed [OF assms(2) split] by simp
    have recs1: "records ?os1 = A @ B" by simp
    show ?thesis
    proof (cases "faults w (CallDelete pk)")
      case (Some m)
      then have ?same using assms(1) present(1-3) some by (simp add: defs)
      then show ?thesis by blast
    next
      case None
      show ?thesis
      proof (cases "faults w (CallOpenCursor pk)")
        case (Some m)
        then have ?same using assms(1) present(1-3) some None by (simp add: defs)
        then show ?thesis by blast
      next
        case no: None
        obtain r5 w5 where c: "compact ?os1 pk ?w4 = (r5, w5)" by (cases "compact ?os1 pk ?w4")
        have w5: "the_store this w5 = Some os"
          using compact_the_store [of this ?os1 pk ?w4] c assms(1) by simp
        have unfold: "removeItemAsync this k w =
            (case r5 of Inl e \<Rightarrow> (Rejected e, w5) | Inr os2 \<Rightarrow> (Fulfilled Ok, commit this os2 w5))"
          using present(1-3) some None no b(3) c by (simp add: defs split: sum.splits)
        show ?thesis
        proof (cases r5)
          case (Inl e)
          then have ?same using w5 by (simp add: unfold)
          then show ?thesis by blast
        next
          case (Inr os2)
          from compact_correct [OF recs1 inv1 b(1,2), of ?w4, THEN conjunct2] c Inr
          have "os2 = os\<lparr>records := A @ map decrement B\<rparr>" by simp
          then have "the_store this (snd (removeItemAsync this k w)) =
              Some (os\<lparr>records := A @ map decrement B\<rparr>)"
            using Inr by (simp add: unfold)
          then show ?thesis using split by blast
        qed
      qed
    qed
  qed
qed

lemma removeItemAsync_inv:
  assumes "the_store this w = Some os" and "store_inv os"
  shows "\<exists>os'. the_store this (snd (removeItemAsync this k w)) = Some os' \<and> store_inv os'"
proof -
  from removeItemAsync_store [OF assms, of k]
  consider "the_store this (snd (removeItemAsync this k w)) = Some os"
    | A pk e B where "records os = A @ (pk, e) # B"
        "the_store this (snd (removeItemAsync this k w)) = Some (os\<lparr>records := A @ map decrement B\<rparr>)"
    by blast
  then show ?thesis
  proof cases
    case 1
    then show ?thesis using assms(2) by blast
  next
    case 2
    then show ?thesis using store_inv_removed [OF assms(2) 2(1)] by blast
  qed
qed

lemma run_ops_inv:
  assumes "the_store this w = Some os" and "store_inv os"
  shows "\<exists>os'. the_store this (run_ops this ops w) = Some os' \<and> store_inv os'"
  using assms
proof (induction ops arbitrary: w os)
  case Nil
  then show ?case by (simp add: run_ops_def)
next
  case (Cons a ops)
  have "\<exists>os1. the_store this (run_op this a w) = Some os1 \<and> store_inv os1"
    using setItemAsync_inv [OF Cons.prems] removeItemAsync_inv [OF Cons.prems]
    by (cases a) simp_all
  then obtain os1 where "the_store this (run_op this a w) = Some os1" "store_inv os1" by blast
  from Cons.IH [OF this] show ?case by (simp add: run_ops_def)
qed

lemma spec_set_absent:
  "\<forall>x \<in> set xs. fst x \<noteq> k \<Longrightarrow> spec_set k s xs = xs @ [(k, s)]"
  by (induction xs) auto

lemma spec_set_present:
  "\<forall>x \<in> set A. fst x \<noteq> k \<Longrightarrow> spec_set k s (A @ (k, s0) # B) = A @ (k, s) # B"
  by (induction A) auto

lemma entries_of_decrement [simp]: "entries_of (map decrement B) = entries_of B"
  by (simp add: entries_of_def)

lemma entries_of_append [simp]: "entries_of (A @ B) = entries_of A @ entries_of B"
  by (simp add: entries_of_def)

lemma entries_of_keys: "map fst (entries_of recs) = map (\<lambda>r. key (snd r)) recs"
  by (simp add: entries_of_def)

lemma setItemAsync_unclonable:
  assumes "\<not> isDeleted this" and "the_store this w = Some os" and "faults w = (\<lambda>c. None)"
    and "wf_store os" and "structuredSerialize (heap w) v = None"
  shows "fst (setItemAsync this k v w) = Pending
       \<and> the_store this (snd (setItemAsync this k v w)) = Some os
       \<and> heap (snd (setItemAsync this k v w)) = heap w
       \<and> faults (snd (setItemAsync this k v w)) = faults w"
proof -
  consider (new) "\<forall>r \<in> set (records os). key (snd r) \<noteq> k"
    | (old) pk e where "(pk, e) \<in> set (records os)" "key e = k"
    using key_present_or_absent [of "records os" k] by blast
  then show ?thesis
  proof cases
    case new
    have none: "keys_getKey (records os) k = None"
      using new by (simp add: keys_getKey_None)
    show ?thesis
      using assms(1,2,3,5) none
      by (simp add: setItemAsync_def openObjectStore_ok [OF assms(2,3)] Let_def)
  next
    case old
    have some: "keys_getKey (records os) k = Some pk"
      using keys_getKey_wf [OF assms(4) old(1)] old(2) by simp
    have get: "store_get (records os) pk = Some e"
      by (rule store_get_wf [OF assms(4) old(1)])
    show ?thesis
      using assms(1,2,3,5) some get
      by (simp add: setItemAsync_def openObjectStore_ok [OF assms(2,3)] Let_def)
  qed
qed

lemma run_op_simulation:
  assumes "\<not> isDeleted this" and "the_store this w = Some os" and "faults w = (\<lambda>c. None)"
    and "store_inv os"
  shows "\<exists>os'. the_store this (run_op this a w) = Some os'
           \<and> store_inv os'
           \<and> faults (run_op this a w) = (\<lambda>c. None)
           \<and> heap (run_op this a w) = heap w
           \<and> entries_of (records os') = spec_op (heap w) a (entries_of (records os))"
proof (cases a)
  case (Set k v)
  note wf = store_inv_wf [OF assms(4)]
  show ?thesis
  proof (cases "structuredSerialize (heap w) v")
    case None
    from setItemAsync_unclonable [OF assms(1-3) wf None, of k] assms(3,4)
    show ?thesis using Set None by simp
  next
    case (Some s)
    consider (new) "\<forall>r \<in> set (records os). key (snd r) \<noteq> k"
      | (old) pk e where "(pk, e) \<in> set (records os)" "key e = k"
      using key_present_or_absent [of "records os" k] by blast
    then show ?thesis
    proof cases
      case new
      let ?os = "os\<lparr>records := records os @
          [(keygen os, \<lparr>index = next_index (records os), key = k, value = s\<rparr>)],
          keygen := Suc (keygen os)\<rparr>"
      note eq = setItemAsync_new [OF assms(1-3) wf new Some]
      have "\<forall>x \<in> set (entries_of (records os)). fst x \<noteq> k"
        using new by (simp add: entries_of_def)
      then have "entries_of (records ?os) = spec_set k s (entries_of (records os))"
        by (simp add: spec_set_absent) (simp add: entries_of_def)
      moreover have "store_inv ?os" by (rule store_inv_append [OF assms(4) new])
      moreover have "the_store this (run_op this a w) = Some ?os"
        "faults (run_op this a w) = (\<lambda>c. None)" "heap (run_op this a w) = heap w"
        using assms(3) by (simp_all add: Set eq)
      ultimately show ?thesis using Set Some by simp
    next
      case old
      let ?os = "os\<lparr>records := map (\<lambda>r. if fst r = pk then (pk, e\<lparr>value := s\<rparr>) else r) (records os)\<rparr>"
      note eq = setItemAsync_update [OF assms(1-3) wf old Some]
      from old(1) obtain A B where split: "records os = A @ (pk, e) # B"
        by (auto simp: in_set_conv_decomp)
      have dist: "distinct (map fst (A @ (pk, e) # B))"
        using wf_distinct_pks [OF wf] split by simp
      have recs: "map (\<lambda>r. if fst r = pk then (pk, e\<lparr>value := s\<rparr>) else r) (records os)
          = A @ (pk, e\<lparr>value := s\<rparr>) # B"
        using replace_split [OF dist, of "e\<lparr>value := s\<rparr>"] by (simp only: split)
      from assms(4) split have "distinct (map (\<lambda>r. key (snd r)) (A @ (pk, e) # B))"
        by (simp add: store_inv_def)
      then have "key e \<notin> (\<lambda>r. key (snd r)) ` set A" by simp
      then have absent: "\<forall>x \<in> set (entries_of A). fst x \<noteq> k"
        using old(2) by (simp add: entries_of_def image_iff) metis
      have "entries_of (records ?os) = entries_of (A @ (pk, e\<lparr>value := s\<rparr>) # B)"
        by (simp add: recs)
      also have "\<dots> = entries_of A @ (k, s) # entries_of B"
        using old(2) by (simp add: entries_of_def)
      also have "\<dots> = spec_set k s (entries_of A @ (k, value e) # entries_of B)"
        by (simp only: spec_set_present [OF absent])
      also have "entries_of A @ (k, value e) # entries_of B = entries_of (records os)"
        using old(2) by (simp add: split entries_of_def)
      finally have "entries_of (records ?os) = spec_set k s (entries_of (records os))" .
      moreover have "store_inv ?os" by (rule store_inv_update [OF assms(4) old(1)])
      moreover have "the_store this (run_op this a w) = Some ?os"
        "faults (run_op this a w) = (\<lambda>c. None)" "heap (run_op this a w) = heap w"
        using assms(3) by (simp_all add: Set eq)
      ultimately show ?thesis using Set Some by simp
    qed
  qed
next
  case (Remove k)
  consider (absent) "\<forall>r \<in> set (records os). key (snd r) \<noteq> k"
    | (present) pk e where "(pk, e) \<in> set (records os)" "key e = k"
    using key_present_or_absent [of "records os" k] by blast
  then show ?thesis
  proof cases
    case absent
    note eq = removeItemAsync_absent [OF assms(1-3) absent]
    have "\<forall>x \<in> set (entries_of (records os)). fst x \<noteq> k"
      using absent by (simp add: entries_of_def)
    then have "spec_remove k (entries_of (records os)) = entries_of (records os)"
      by (simp add: spec_remove_def filter_id_conv)
    moreover have "the_store this (run_op this a w) = Some os"
      "faults (run_op this a w) = (\<lambda>c. None)" "heap (run_op this a w) = heap w"
      using assms(2,3) by (simp_all add: Remove eq)
    ultimately show ?thesis using Remove assms(4) by simp
  next
    case present
    from present(1) obtain A B where split: "records os = A @ (pk, e) # B"
      by (auto simp: in_set_conv_decomp)
    let ?os = "os\<lparr>records := A @ map decrement B\<rparr>"
    note eq = removeItemAsync_present [OF assms split present(2)]
    from assms(4) split have keys: "distinct (map (\<lambda>r. key (snd r)) (A @ (pk, e) # B))"
      by (simp add: store_inv_def)
    have "map fst (spec_remove k (entries_of (records os)))
        = filter (\<lambda>x. x \<noteq> key e) (map (\<lambda>r. key (snd r)) (A @ (pk, e) # B))"
      using present(2) by (simp add: spec_remove_def entries_of_def split filter_map o_def)
    have kA: "\<forall>r \<in> set A. key (snd r) \<noteq> k" and kB: "\<forall>r \<in> set B. key (snd r) \<noteq> k"
      using keys present(2) by (simp_all add: image_iff) metis+
    have "filter (\<lambda>x. fst x \<noteq> k) (entries_of A) = entries_of A"
      using kA by (simp add: entries_of_def filter_id_conv)
    moreover have "filter (\<lambda>x. fst x \<noteq> k) (entries_of B) = entries_of B"
      using kB by (simp add: entries_of_def filter_id_conv)
    ultimately have "entries_of (records ?os) = spec_remove k (entries_of (records os))"
      using present(2) by (simp add: spec_remove_def split) (simp add: entries_of_def)
    moreover have "store_inv ?os" by (rule store_inv_removed [OF assms(4) split])
    moreover have "the_store this (run_op this a w) = Some ?os"
      "faults (run_op this a w) = (\<lambda>c. None)" "heap (run_op this a w) = heap w"
      using assms(3) by (simp_all add: Remove eq)
    ultimately show ?thesis using Remove by simp
  qed
qed

lemma run_ops_simulation:
  assumes "\<not> isDeleted this" and "the_store this w = Some os" and "faults w = (\<lambda>c. None)"
    and "store_inv os"
  shows "\<exists>os'. the_store this (run_ops this ops w) = Some os'
           \<and> entries_of (records os') = fold (spec_op (heap w)) ops (entries_of (records os))"
  using assms(2-4)
proof (induction ops arbitrary: w os)
  case Nil
  then show ?case by (simp add: run_ops_def)
next
  case (Cons a ops)
  from run_op_simulation [OF assms(1) Cons.prems, of a]
  obtain os1 where os1: "the_store this (run_op this a w) = Some os1" "store_inv os1"
    "faults (run_op this a w) = (\<lambda>c. None)" "heap (run_op this a w) = heap w"
    "entries_of (records os1) = spec_op (heap w) a (entries_of (records os))"
    by blast
  from Cons.IH [OF os1(1,3,2)] show ?case
    by (simp add: run_ops_def os1(4,5))
qed

text \<open>
  C1. From a store without records, after any sequence of \<^verbatim>\<open>setItemAsync\<close> and
  \<^verbatim>\<open>removeItemAsync\<close> calls, each awaited, whatever their arguments and whatever the
  Engine does: the store is still there, its ordinals are exactly \<open>0, \<dots>, size - 1\<close>
  without duplicates, and the record at place \<open>i\<close> in primary-key order (the order in
  which the key generator issued the keys) has ordinal \<open>i\<close>. If moreover the instance is
  not deleted and the Engine reports no failure, the (key, value) pairs in ordinal order
  are the list that the same operations build when a new key is put at the end, an
  existing key keeps its place, and a removed key is taken out.
\<close>

theorem gapless_ordinals:
  assumes "the_store this w = Some os" and "records os = []"
  shows "\<exists>os'. the_store this (run_ops this ops w) = Some os'
           \<and> set (map (\<lambda>r. index (snd r)) (records os')) = {0..<int (length (records os'))}
           \<and> distinct (map (\<lambda>r. index (snd r)) (records os'))
           \<and> map (\<lambda>r. index (snd r)) (records os') = map int [0..<length (records os')]
           \<and> sorted_wrt (<) (map fst (records os'))
           \<and> (\<not> isDeleted this \<and> faults w = (\<lambda>c. None) \<longrightarrow>
                 entries_of (records os') = spec_run (heap w) ops)"
proof -
  have inv0: "store_inv os" using assms(2) by (simp add: store_inv_def)
  from run_ops_inv [OF assms(1) inv0, of ops]
  obtain os' where os': "the_store this (run_ops this ops w) = Some os'" "store_inv os'" by blast
  from os'(2) have ix: "map (\<lambda>r. index (snd r)) (records os') = map int [0..<length (records os')]"
    and pks: "sorted_wrt (<) (map fst (records os'))"
    by (simp_all add: store_inv_def)
  have "set (map int [0..<length (records os')]) = {0..<int (length (records os'))}"
    by (simp add: image_int_atLeastLessThan del: upt_Suc)
  then have a: "set (map (\<lambda>r. index (snd r)) (records os')) = {0..<int (length (records os'))}"
    by (simp only: ix)
  have "distinct (map int [0..<length (records os')])"
    by (simp add: distinct_map del: upt_Suc)
  then have b: "distinct (map (\<lambda>r. index (snd r)) (records os'))"
    by (simp only: ix)
  have c: "\<not> isDeleted this \<and> faults w = (\<lambda>c. None) \<longrightarrow>
      entries_of (records os') = spec_run (heap w) ops"
  proof
    assume live: "\<not> isDeleted this \<and> faults w = (\<lambda>c. None)"
    from run_ops_simulation [OF _ assms(1) _ inv0, of ops] live
    obtain os2 where "the_store this (run_ops this ops w) = Some os2"
      "entries_of (records os2) = fold (spec_op (heap w)) ops (entries_of (records os))"
      by blast
    then show "entries_of (records os') = spec_run (heap w) ops"
      using os'(1) assms(2) by (simp add: spec_run_def entries_of_def)
  qed
  from os'(1) a b ix pks c show ?thesis by blast
qed

text \<open>
  The witness stores a cyclic object first (\<^verbatim>\<open>o = { self: o }\<close>), then a second key, then
  updates the first key: the first key keeps ordinal \<open>0\<close>.
\<close>

theorem gapless_ordinals_witness:
  "the_store settings_instance (settings_world [] 1 [JObject [(''self'', JRef 0)]])
     = Some \<lparr>records = [], keygen = 1\<rparr>
   \<and> \<not> isDeleted settings_instance
   \<and> faults (settings_world [] 1 [JObject [(''self'', JRef 0)]]) = (\<lambda>c. None)
   \<and> (\<exists>os'. the_store settings_instance
          (run_ops settings_instance
             [Set ''a'' (JRef 0), Set ''b'' (JNum 1), Set ''a'' (JNum 2)]
             (settings_world [] 1 [JObject [(''self'', JRef 0)]])) = Some os'
         \<and> map (\<lambda>r. index (snd r)) (records os') = map int [0..<length (records os')]
         \<and> entries_of (records os') = [(''a'', Snapshot (JNum 2) []), (''b'', Snapshot (JNum 1) [])])"
proof -
  let ?h = "[JObject [(''self'', JRef 0)]]"
  have h1: "the_store settings_instance (settings_world [] 1 ?h) = Some \<lparr>records = [], keygen = 1\<rparr>"
    by (simp add: eval_defs)
  have h2: "records \<lparr>records = [], keygen = 1\<rparr> = []" by simp
  have h3: "\<not> isDeleted settings_instance" by (simp add: settings_instance_def)
  have h4: "faults (settings_world [] 1 ?h) = (\<lambda>c. None)" by (simp add: settings_world_def)
  have spec: "spec_run (heap (settings_world [] 1 ?h))
      [Set ''a'' (JRef 0), Set ''b'' (JNum 1), Set ''a'' (JNum 2)]
      = [(''a'', Snapshot (JNum 2) []), (''b'', Snapshot (JNum 1) [])]"
    by (simp add: spec_run_def settings_world_def clone_defs)
  from gapless_ordinals [OF h1 h2, of
      "[Set ''a'' (JRef 0), Set ''b'' (JNum 1), Set ''a'' (JNum 2)]"] h3 h4 spec
  have "\<exists>os'. the_store settings_instance
          (run_ops settings_instance
             [Set ''a'' (JRef 0), Set ''b'' (JNum 1), Set ''a'' (JNum 2)]
             (settings_world [] 1 ?h)) = Some os'
         \<and> map (\<lambda>r. index (snd r)) (records os') = map int [0..<length (records os')]
         \<and> entries_of (records os') = [(''a'', Snapshot (JNum 2) []), (''b'', Snapshot (JNum 1) [])]"
    by auto
  with h1 h3 h4 show ?thesis by blast
qed

end
